theory Spec2Isabelle
  imports Complex_Main "HOL-Library.Multiset"
begin

section \<open>Data model of \<open>analyzer.py\<close>\<close>

text \<open>
  A trade event is the dictionary \<open>{"wallet", "timestamp", "amount"}\<close> that
  \<open>analyze_wallet_clustering\<close> builds for every entry of \<open>transactions\<close>. A
  \<open>datetime\<close> is its number of microseconds since the epoch (the resolution of
  Python's \<open>datetime\<close>), so \<open>timedelta(seconds=2)\<close> is \<open>2000000\<close>. The caller in
  \<open>main.py\<close> always passes \<open>datetime\<close> values (\<open>fetch_top_recent_purchases\<close> builds them
  with \<open>utcfromtimestamp\<close>); an ISO string would be turned into the same representation by
  \<open>datetime.fromisoformat\<close> before anything else happens. Python floats are modelled by
  exact rationals.
\<close>

record tx =
  wallet :: string
  timestamp :: int
  amount :: "rat option"

text \<open>
  The function reads the wall clock (\<open>datetime.utcnow()\<close>) and, when a token address is
  given, calls three look-ups that go to the Solana RPC endpoint. What the clock and the
  network answer is not an argument of the Python function; it is the \<open>world\<close> the call
  runs in. Each look-up is represented by the tuple it returns.
\<close>

record world =
  utcnow :: int
  simulate_token_authorities :: "string \<Rightarrow> bool \<times> bool \<times> string list"
  get_top_holders_onchain :: "string \<Rightarrow> rat \<times> string list"
  simulate_lp_stability :: "string \<Rightarrow> rat \<times> string list"

text \<open>
  The entries of \<open>reasons\<close>. A message without interpolation is its literal text; a
  formatted message is a constructor carrying the values that the f-string interpolates.
\<close>

datatype reason =
    Msg string
  | SequentialBuying int nat rat
  | NewWalletConcentration nat nat rat
  | FreshWalletSurge nat nat rat
  | HighVolumeLowDiversity nat nat
  | WashTradingPattern nat rat "(string \<times> nat) list"

datatype error = IndexError

text \<open>The returned tuple \<open>(manipulation_score, reasons, freeze_present, mint_present, top_10_share)\<close>.\<close>

record assessment =
  manipulation_score :: rat
  reasons :: "reason list"
  freeze_present :: bool
  mint_present :: bool
  top_10_share :: rat

section \<open>Normalisation and sorting (lines 304-327)\<close>

definition normalize_tx :: "tx \<Rightarrow> tx" where
  "normalize_tx t = \<lparr>wallet = wallet t, timestamp = timestamp t, amount = amount t\<rparr>"

definition norm_tx_of :: "tx list \<Rightarrow> tx list" where
  "norm_tx_of transactions = map normalize_tx transactions"

text \<open>\<open>norm_tx.sort(key=lambda x: x["timestamp"])\<close>: a stable ascending sort.\<close>

definition sort_by_timestamp :: "tx list \<Rightarrow> tx list" where
  "sort_by_timestamp norm_tx = sort_key timestamp norm_tx"

section \<open>Temporal clustering (lines 329-354)\<close>

definition window_size :: int where
  "window_size = 2000000"

text \<open>
  The inner \<open>while\<close> loop. An index outside the list raises \<open>IndexError\<close> in Python.
\<close>

function advance_start :: "tx list \<Rightarrow> nat \<Rightarrow> nat \<Rightarrow> error + nat" where
  "advance_start norm_tx endi start =
     (if length norm_tx \<le> endi \<or> length norm_tx \<le> start then Inl IndexError
      else if timestamp (norm_tx ! endi) - timestamp (norm_tx ! start) > window_size
           then advance_start norm_tx endi (start + 1)
           else Inr start)"
  by pat_completeness auto
termination
  by (relation "measure (\<lambda>(norm_tx, endi, start). length norm_tx - start)") auto

declare advance_start.simps [simp del]

text \<open>The \<open>for end in range(total)\<close> loop, carrying \<open>start\<close> and \<open>max_in_window\<close>.\<close>

fun window_scan :: "tx list \<Rightarrow> nat list \<Rightarrow> nat \<Rightarrow> int \<Rightarrow> error + int" where
  "window_scan norm_tx [] start max_in_window = Inr max_in_window"
| "window_scan norm_tx (endi # rest) start max_in_window =
     (case advance_start norm_tx endi start of
        Inl e \<Rightarrow> Inl e
      | Inr start' \<Rightarrow>
          (let window_count = int endi - int start' + 1
           in window_scan norm_tx rest start'
                (if window_count > max_in_window then window_count else max_in_window)))"

definition max_in_window_of :: "tx list \<Rightarrow> error + int" where
  "max_in_window_of norm_tx = window_scan norm_tx [0..<length norm_tx] 0 1"

definition sequential_risk_of :: "rat \<Rightarrow> rat" where
  "sequential_risk_of clustered_fraction =
     (if clustered_fraction \<le> 1/2 then 0
      else if clustered_fraction \<ge> 1 then 1
      else (clustered_fraction - 1/2) / (1/2))"

text \<open>Returns \<open>(sequential_risk, reasons)\<close> for the sorted, non-empty \<open>norm_tx\<close>.\<close>

definition temporal_clustering :: "tx list \<Rightarrow> error + (rat \<times> reason list)" where
  "temporal_clustering norm_tx =
     (case max_in_window_of norm_tx of
        Inl e \<Rightarrow> Inl e
      | Inr max_in_window \<Rightarrow>
          (let total = length norm_tx;
               clustered_fraction = of_int max_in_window / of_nat total;
               sequential_risk = sequential_risk_of clustered_fraction
           in Inr (sequential_risk,
                   if sequential_risk > 0
                   then [SequentialBuying max_in_window total clustered_fraction]
                   else [])))"

text \<open>
  What one round of the \<open>for\<close> loop counts, as the proofs below show: the trades up to
  index \<open>e\<close> of the sorted list that lie at most two seconds before trade \<open>e\<close>.
\<close>

definition count_back :: "tx list \<Rightarrow> nat \<Rightarrow> int" where
  "count_back xs e =
     int (length (filter (\<lambda>t. timestamp (xs ! e) - window_size \<le> timestamp t) (take (Suc e) xs)))"

section \<open>Wallet age (lines 356-411)\<close>

text \<open>The loop that fills the dictionary \<open>first_tx_times\<close>.\<close>

fun first_tx_times_loop :: "tx list \<Rightarrow> (string \<rightharpoonup> int) \<Rightarrow> (string \<rightharpoonup> int)" where
  "first_tx_times_loop [] first_tx_times = first_tx_times"
| "first_tx_times_loop (t # rest) first_tx_times =
     first_tx_times_loop rest
       (case first_tx_times (wallet t) of
          None \<Rightarrow> first_tx_times(wallet t \<mapsto> timestamp t)
        | Some ts0 \<Rightarrow>
            if timestamp t < ts0 then first_tx_times(wallet t \<mapsto> timestamp t)
            else first_tx_times)"

definition first_tx_times_of :: "tx list \<Rightarrow> (string \<rightharpoonup> int)" where
  "first_tx_times_of norm_tx = first_tx_times_loop norm_tx Map.empty"

definition new_wallet_threshold_hours :: rat where
  "new_wallet_threshold_hours = 24"

text \<open>\<open>(now_utc - first_ts).total_seconds() / 3600.0\<close>\<close>

definition age_hours :: "int \<Rightarrow> int \<Rightarrow> rat" where
  "age_hours now_utc first_ts = of_int (now_utc - first_ts) / 1000000 / 3600"

text \<open>
  The body of both counting loops: a wallet without an entry in \<open>first_tx_times\<close> is
  skipped (\<open>continue\<close>), otherwise it counts when its age is below the threshold. The test
  \<open>not first_ts\<close> is true only for the missing entry: a \<open>datetime\<close> is never falsy.
\<close>

definition is_new_wallet :: "int \<Rightarrow> (string \<rightharpoonup> int) \<Rightarrow> string \<Rightarrow> bool" where
  "is_new_wallet now_utc first_tx_times w =
     (case first_tx_times w of
        None \<Rightarrow> False
      | Some first_ts \<Rightarrow> age_hours now_utc first_ts < new_wallet_threshold_hours)"

text \<open>\<open>list(dict.fromkeys(xs))\<close>: the distinct elements in order of first occurrence.\<close>

definition dict_fromkeys :: "'a list \<Rightarrow> 'a list" where
  "dict_fromkeys xs = fold (\<lambda>x keys. if x \<in> set keys then keys else keys @ [x]) xs []"

text \<open>The slice \<open>xs[-50:]\<close>.\<close>

definition last50 :: "'a list \<Rightarrow> 'a list" where
  "last50 xs = drop (length xs - 50) xs"

text \<open>The values of \<open>new_wallet_count\<close>, \<open>new_wallet_fraction\<close> and of \<open>wallet_age_risk\<close>
  as first assigned (line 382).\<close>

definition new_wallet_count_of :: "int \<Rightarrow> tx list \<Rightarrow> nat" where
  "new_wallet_count_of now_utc norm_tx =
     card (Set.filter (is_new_wallet now_utc (first_tx_times_of norm_tx))
             (set (map wallet norm_tx)))"

definition new_wallet_fraction_of :: "int \<Rightarrow> tx list \<Rightarrow> rat" where
  "new_wallet_fraction_of now_utc norm_tx =
     of_nat (new_wallet_count_of now_utc norm_tx)
       / of_nat (max (card (set (map wallet norm_tx))) 1)"

definition wallet_age_risk_initial :: "int \<Rightarrow> tx list \<Rightarrow> rat" where
  "wallet_age_risk_initial now_utc norm_tx = min 1 (new_wallet_fraction_of now_utc norm_tx)"

definition recent_unique_wallets_of :: "tx list \<Rightarrow> string list" where
  "recent_unique_wallets_of norm_tx = dict_fromkeys (map wallet (last50 norm_tx))"

definition recent_new_count_of :: "int \<Rightarrow> tx list \<Rightarrow> nat" where
  "recent_new_count_of now_utc norm_tx =
     length (filter (is_new_wallet now_utc (first_tx_times_of norm_tx))
               (recent_unique_wallets_of norm_tx))"

definition recent_fraction_of :: "int \<Rightarrow> tx list \<Rightarrow> rat" where
  "recent_fraction_of now_utc norm_tx =
     of_nat (recent_new_count_of now_utc norm_tx)
       / of_nat (max (length (recent_unique_wallets_of norm_tx)) 1)"

text \<open>Returns \<open>(wallet_age_risk, reasons)\<close> for the sorted, non-empty \<open>norm_tx\<close>.\<close>

definition wallet_age :: "int \<Rightarrow> tx list \<Rightarrow> rat \<times> reason list" where
  "wallet_age now_utc norm_tx =
     (let unique_wallets = set (map wallet norm_tx);
          new_wallet_count = new_wallet_count_of now_utc norm_tx;
          new_wallet_fraction = new_wallet_fraction_of now_utc norm_tx;
          wallet_age_risk = wallet_age_risk_initial now_utc norm_tx;
          reasons1 = (if wallet_age_risk > 1/2
                      then [NewWalletConcentration new_wallet_count (card unique_wallets)
                              new_wallet_fraction]
                      else []);
          recent_wallets_ordered = map wallet (last50 norm_tx)
      in if recent_wallets_ordered \<noteq> [] then
           (let recent_unique_wallets = recent_unique_wallets_of norm_tx;
                recent_new_count = recent_new_count_of now_utc norm_tx;
                recent_fraction = recent_fraction_of now_utc norm_tx
            in if recent_fraction > 1/2 \<and> length recent_unique_wallets \<ge> 10
               then (min 1 (max wallet_age_risk recent_fraction),
                     reasons1 @ [FreshWalletSurge recent_new_count
                                   (length recent_unique_wallets) recent_fraction])
               else (wallet_age_risk, reasons1))
         else (wallet_age_risk, reasons1))"

section \<open>High volume with low buyer diversity (lines 413-431)\<close>

definition last_5m_txs_of :: "tx list \<Rightarrow> tx list" where
  "last_5m_txs_of norm_tx =
     (let latest_ts = timestamp (last norm_tx);
          five_min_window_start = latest_ts - 300000000
      in filter (\<lambda>t. timestamp t \<ge> five_min_window_start) norm_tx)"

text \<open>Returns \<open>(hvld_risk, reasons)\<close> for the sorted, non-empty \<open>norm_tx\<close>.\<close>

definition high_volume_low_diversity :: "tx list \<Rightarrow> rat \<times> reason list" where
  "high_volume_low_diversity norm_tx =
     (let last_5m_txs = last_5m_txs_of norm_tx;
          unique_buyers_5m = set (map wallet last_5m_txs);
          tx_count_5m = length last_5m_txs;
          unique_buyers_count_5m = card unique_buyers_5m;
          hvld = (tx_count_5m \<ge> 8 \<and> unique_buyers_count_5m < 10)
      in (if hvld then 1 else 0,
          if hvld then [HighVolumeLowDiversity tx_count_5m unique_buyers_count_5m] else []))"

section \<open>Wash trading (lines 464-483)\<close>

text \<open>
  \<open>wallet_trade_counts\<close> is a dictionary, which keeps its keys in insertion order; its
  \<open>items()\<close> are an association list.
\<close>

fun bump :: "string \<Rightarrow> (string \<times> nat) list \<Rightarrow> (string \<times> nat) list" where
  "bump w [] = [(w, 0 + 1)]"
| "bump w ((k, c) # rest) = (if k = w then (k, c + 1) # rest else (k, c) # bump w rest)"

definition wallet_trade_counts_of :: "tx list \<Rightarrow> (string \<times> nat) list" where
  "wallet_trade_counts_of norm_tx = fold (\<lambda>t counts. bump (wallet t) counts) norm_tx []"

text \<open>\<open>sorted(items, key=lambda kv: kv[1], reverse=True)[:3]\<close>: stable, descending by count.\<close>

definition top_cluster_of :: "tx list \<Rightarrow> (string \<times> nat) list" where
  "top_cluster_of norm_tx =
     take 3 (sort_key (\<lambda>kv. - int (snd kv)) (wallet_trade_counts_of norm_tx))"

definition wash_fraction_of :: "tx list \<Rightarrow> rat" where
  "wash_fraction_of norm_tx =
     (let total = length norm_tx;
          top_cluster_trades = sum_list (map snd (top_cluster_of norm_tx))
      in if total \<noteq> 0 then of_nat top_cluster_trades / of_nat total else 0)"

text \<open>Returns \<open>(wash_trading_risk, reasons)\<close>.\<close>

definition wash_trading :: "tx list \<Rightarrow> rat \<times> reason list" where
  "wash_trading norm_tx =
     (let top_cluster = top_cluster_of norm_tx;
          wash_fraction = wash_fraction_of norm_tx
      in if wash_fraction \<ge> 6/10 \<and> list_all (\<lambda>kv. snd kv \<ge> 2) top_cluster
         then (1, [WashTradingPattern (length top_cluster) wash_fraction top_cluster])
         else (0, []))"

section \<open>Token-level checks (lines 434-451)\<close>

text \<open>Returns \<open>(freeze_present, mint_present, top_10_share, lp_risk, reasons)\<close>.\<close>

definition token_checks :: "world \<Rightarrow> string option \<Rightarrow> bool \<times> bool \<times> rat \<times> rat \<times> reason list" where
  "token_checks w token_address =
     (case token_address of
        None \<Rightarrow> (False, False, 0, 0, [])
      | Some addr \<Rightarrow>
          (case simulate_token_authorities w addr of (freeze, mint, authority_reasons) \<Rightarrow>
           case get_top_holders_onchain w addr of (top10, th_reasons) \<Rightarrow>
           case simulate_lp_stability w addr of (lp, lp_reasons) \<Rightarrow>
             (freeze, mint, top10, lp,
              map Msg authority_reasons @ map Msg th_reasons @ map Msg lp_reasons)))"

section \<open>Aggregation (lines 453-526)\<close>

definition modifier_of :: "rat \<Rightarrow> rat \<Rightarrow> rat \<Rightarrow> rat \<Rightarrow> rat" where
  "modifier_of wallet_age_risk hvld_risk lp_risk wash_trading_risk =
     wallet_age_risk * 10 + hvld_risk * 20 + lp_risk * 10 + wash_trading_risk * 10"

definition honeypot_risk :: rat where
  "honeypot_risk = 0"

definition insufficient_data :: reason where
  "insufficient_data = Msg ''Insufficient transaction data for depth analysis.''"

definition no_risk_detected :: reason where
  "no_risk_detected =
     Msg (''No strong clustering, new-wallet anomalies, source-of-funds correlation, '' @
          ''high-volume/low-diversity patterns, honeypot-like token behavior, or '' @
          ''centralized authority risks detected.'')"

text \<open>Lines 494-524, one definition for each statement that assigns \<open>manipulation_score\<close>.\<close>

definition honeypot_override :: "rat \<Rightarrow> rat" where
  "honeypot_override score = (if honeypot_risk > 0 then 100 else score)"

definition top_holder_bonus :: "rat \<Rightarrow> rat \<Rightarrow> rat" where
  "top_holder_bonus top10 score = (if top10 > 30 then min 100 (score + 10) else score)"

definition zero_data_floor :: "nat \<Rightarrow> rat \<Rightarrow> rat" where
  "zero_data_floor total_trades score =
     (if total_trades = 0 \<and> score < 85 then 85 else score)"

definition authority_floor :: "nat \<Rightarrow> rat \<Rightarrow> bool \<Rightarrow> rat \<Rightarrow> rat" where
  "authority_floor total_trades lp freeze score =
     (if total_trades > 0 \<and> (lp > 0 \<or> freeze) \<and> score < 85 then 85 else score)"

definition clamp_score :: "rat \<Rightarrow> rat" where
  "clamp_score score = max 0 (min 100 score)"

definition final_score :: "nat \<Rightarrow> rat \<Rightarrow> rat \<Rightarrow> rat \<Rightarrow> rat \<Rightarrow> bool \<Rightarrow> rat" where
  "final_score total_trades base_risk_score modifier top10 lp freeze =
     clamp_score
       (authority_floor total_trades lp freeze
         (zero_data_floor total_trades
           (top_holder_bonus top10
             (honeypot_override (base_risk_score + modifier)))))"

definition base_risk_score_of :: "nat \<Rightarrow> rat \<Rightarrow> rat" where
  "base_risk_score_of total_trades sequential_risk =
     (if total_trades > 0 then sequential_risk * 100 else 50)"

text \<open>
  The reasons in the order in which the function appends them: the trade detectors,
  the token look-ups, the note on missing data, wash trading; the neutral message when
  the list is still empty at line 499.
\<close>

definition collect_reasons ::
  "nat \<Rightarrow> reason list \<Rightarrow> reason list \<Rightarrow> reason list \<Rightarrow> reason list" where
  "collect_reasons total_trades rs_trades rs_token rs_wash =
     (let rs = rs_trades @ rs_token @ (if total_trades > 0 then [] else [insufficient_data])
                 @ rs_wash
      in if rs = [] then [no_risk_detected] else rs)"

fun aggregate ::
  "nat \<Rightarrow> rat \<times> rat \<times> rat \<times> reason list \<Rightarrow> bool \<times> bool \<times> rat \<times> rat \<times> reason list
     \<Rightarrow> rat \<times> reason list \<Rightarrow> assessment" where
  "aggregate total_trades (sequential_risk, wallet_age_risk, hvld_risk, rs_trades)
       (freeze, mint, top10, lp, rs_token) (wash_trading_risk, rs_wash) =
     \<lparr>manipulation_score =
        final_score total_trades (base_risk_score_of total_trades sequential_risk)
          (modifier_of wallet_age_risk hvld_risk lp wash_trading_risk) top10 lp freeze,
      reasons = collect_reasons total_trades rs_trades rs_token rs_wash,
      freeze_present = freeze,
      mint_present = mint,
      top_10_share = top10\<rparr>"

text \<open>
  The block under \<open>if total > 0\<close>: the three detectors run on the sorted list and return
  \<open>(sequential_risk, wallet_age_risk, hvld_risk, reasons)\<close>.
\<close>

definition trade_signals :: "int \<Rightarrow> tx list \<Rightarrow> error + (rat \<times> rat \<times> rat \<times> reason list)" where
  "trade_signals now_utc norm_tx =
     (case temporal_clustering norm_tx of
        Inl e \<Rightarrow> Inl e
      | Inr (sequential_risk, rs1) \<Rightarrow>
          (case wallet_age now_utc norm_tx of (wallet_age_risk, rs2) \<Rightarrow>
           case high_volume_low_diversity norm_tx of (hvld_risk, rs3) \<Rightarrow>
             Inr (sequential_risk, wallet_age_risk, hvld_risk, rs1 @ rs2 @ rs3)))"

definition analyze_wallet_clustering ::
  "world \<Rightarrow> tx list \<Rightarrow> string option \<Rightarrow> error + assessment" where
  "analyze_wallet_clustering w transactions token_address =
     (let norm_tx0 = norm_tx_of transactions;
          total = length norm_tx0;
          norm_tx = (if total > 0 then sort_by_timestamp norm_tx0 else norm_tx0)
      in case (if total > 0 then trade_signals (utcnow w) norm_tx else Inr (0, 0, 0, [])) of
           Inl e \<Rightarrow> Inl e
         | Inr signals \<Rightarrow>
             Inr (aggregate total signals (token_checks w token_address)
                    (wash_trading norm_tx)))"

section \<open>The caller's list in the store (lines 301-327)\<close>

text \<open>
  Python lists and dictionaries are objects that the caller and the function share by
  reference. To say what a call writes, the objects live in a store: an address holds an
  event dictionary or a list of addresses of event dictionaries, and \<open>next_free\<close> is the
  address the next allocation returns. A read that finds no object of the expected kind
  is Python's \<open>TypeError\<close> or \<open>KeyError\<close>; the functions below return \<open>None\<close> there.
\<close>

datatype pyobj = Event tx | EventList "nat list"

record heap =
  cells :: "nat \<rightharpoonup> pyobj"
  next_free :: nat

definition heap_ok :: "heap \<Rightarrow> bool" where
  "heap_ok h = (\<forall>a \<in> dom (cells h). a < next_free h)"

text \<open>Creating an object: \<open>[]\<close> or \<open>{...}\<close>.\<close>

definition alloc :: "pyobj \<Rightarrow> heap \<Rightarrow> nat \<times> heap" where
  "alloc v h =
     (next_free h, h\<lparr>cells := (cells h)(next_free h \<mapsto> v), next_free := next_free h + 1\<rparr>)"

definition read_event :: "heap \<Rightarrow> nat \<Rightarrow> tx option" where
  "read_event h r = (case cells h r of Some (Event t) \<Rightarrow> Some t | _ \<Rightarrow> None)"

definition read_list :: "heap \<Rightarrow> nat \<Rightarrow> nat list option" where
  "read_list h a = (case cells h a of Some (EventList refs) \<Rightarrow> Some refs | _ \<Rightarrow> None)"

fun read_all :: "heap \<Rightarrow> nat list \<Rightarrow> tx list option" where
  "read_all h [] = Some []"
| "read_all h (r # rest) =
     (case read_event h r of
        None \<Rightarrow> None
      | Some t \<Rightarrow> (case read_all h rest of None \<Rightarrow> None | Some ts \<Rightarrow> Some (t # ts)))"

definition read_events :: "heap \<Rightarrow> nat \<Rightarrow> tx list option" where
  "read_events h a = (case read_list h a of None \<Rightarrow> None | Some refs \<Rightarrow> read_all h refs)"

text \<open>\<open>l.append(d)\<close> changes the list object \<open>l\<close> in place.\<close>

definition list_append :: "nat \<Rightarrow> nat \<Rightarrow> heap \<Rightarrow> heap option" where
  "list_append l d h =
     (case read_list h l of
        None \<Rightarrow> None
      | Some refs \<Rightarrow> Some (h\<lparr>cells := (cells h)(l \<mapsto> EventList (refs @ [d]))\<rparr>))"

text \<open>
  The loop of lines 306-316: for every entry of \<open>transactions\<close> a new dictionary is
  created and appended to \<open>norm_tx\<close>.
\<close>

fun normalize_loop :: "nat list \<Rightarrow> nat \<Rightarrow> heap \<Rightarrow> heap option" where
  "normalize_loop [] norm_tx h = Some h"
| "normalize_loop (r # rest) norm_tx h =
     (case read_event h r of
        None \<Rightarrow> None
      | Some t \<Rightarrow>
          (case alloc (Event (normalize_tx t)) h of (d, h1) \<Rightarrow>
           case list_append norm_tx d h1 of
             None \<Rightarrow> None
           | Some h2 \<Rightarrow> normalize_loop rest norm_tx h2))"

text \<open>\<open>l.sort(key=lambda x: x["timestamp"])\<close> reorders the list object \<open>l\<close> in place, stably.\<close>

definition list_sort :: "nat \<Rightarrow> heap \<Rightarrow> heap option" where
  "list_sort l h =
     (case read_list h l of
        None \<Rightarrow> None
      | Some refs \<Rightarrow>
          (case read_all h refs of
             None \<Rightarrow> None
           | Some evs \<Rightarrow>
               Some (h\<lparr>cells := (cells h)(l \<mapsto>
                       EventList (map fst (sort_key (\<lambda>p. timestamp (snd p)) (zip refs evs))))\<rparr>)))"

text \<open>
  Everything after line 327 reads \<open>norm_tx\<close> and writes only to objects the function
  created itself (\<open>reasons\<close>, \<open>first_tx_times\<close>, \<open>wallet_trade_counts\<close>): it is the
  function of the sorted events that \<open>analyze_wallet_clustering\<close> above applies.
\<close>

definition analyze_sorted :: "world \<Rightarrow> tx list \<Rightarrow> string option \<Rightarrow> error + assessment" where
  "analyze_sorted w norm_tx token_address =
     (let total = length norm_tx
      in case (if total > 0 then trade_signals (utcnow w) norm_tx else Inr (0, 0, 0, [])) of
           Inl e \<Rightarrow> Inl e
         | Inr signals \<Rightarrow>
             Inr (aggregate total signals (token_checks w token_address)
                    (wash_trading norm_tx)))"

text \<open>
  The call on the store: \<open>transactions\<close> is the address of the caller's list. The result
  is the store after the call and the returned value.
\<close>

definition analyze_on_heap ::
  "world \<Rightarrow> heap \<Rightarrow> nat \<Rightarrow> string option \<Rightarrow> (heap \<times> (error + assessment)) option" where
  "analyze_on_heap w h transactions token_address =
     (case read_list h transactions of
        None \<Rightarrow> None
      | Some refs \<Rightarrow>
          (case alloc (EventList []) h of (norm_tx, h0) \<Rightarrow>
           case normalize_loop refs norm_tx h0 of
             None \<Rightarrow> None
           | Some h1 \<Rightarrow>
               (case read_list h1 norm_tx of
                  None \<Rightarrow> None
                | Some norm_refs \<Rightarrow>
                    (case (if length norm_refs > 0 then list_sort norm_tx h1 else Some h1) of
                       None \<Rightarrow> None
                     | Some h2 \<Rightarrow>
                         (case read_events h2 norm_tx of
                            None \<Rightarrow> None
                          | Some evs \<Rightarrow> Some (h2, analyze_sorted w evs token_address))))))"

section \<open>The detectors as the specification words them\<close>

text \<open>
  These definitions follow the words of the specification and never mention the
  dictionaries or the loops of the code, and the time order only where the specification
  itself speaks of it (the last 50 trades); the theorems below compare them with the
  definitions above.
\<close>

text \<open>
  Temporal clustering: the number of trades whose timestamps lie in the span of two
  seconds that starts at \<open>a\<close>, both ends included, and the largest such number. A fullest
  span can be moved until it ends at a trade, so the maximum is taken over the spans that
  end at the timestamp of a trade; \<open>span_count_bound\<close> and \<open>span_count_attained\<close> below
  show that this is the maximum over all spans.
\<close>

definition span_count :: "tx list \<Rightarrow> int \<Rightarrow> nat" where
  "span_count txs a =
     length (filter (\<lambda>t. a \<le> timestamp t \<and> timestamp t \<le> a + 2000000) txs)"

definition max_in_span :: "tx list \<Rightarrow> nat" where
  "max_in_span txs = Max ((\<lambda>t. span_count txs (timestamp t - 2000000)) ` set txs)"

definition clustered_fraction :: "tx list \<Rightarrow> rat" where
  "clustered_fraction txs = of_nat (max_in_span txs) / of_nat (length txs)"

text \<open>
  Volume and diversity: the trades whose timestamp is at least the latest timestamp
  minus five minutes; the flag fires on at least 8 such trades from fewer than 10 wallets.
\<close>

definition latest_timestamp :: "tx list \<Rightarrow> int" where
  "latest_timestamp txs = Max (timestamp ` set txs)"

definition trailing_window :: "tx list \<Rightarrow> tx list" where
  "trailing_window txs = filter (\<lambda>t. latest_timestamp txs - 300000000 \<le> timestamp t) txs"

definition hvld_fires :: "tx list \<Rightarrow> bool" where
  "hvld_fires txs =
     (length (trailing_window txs) \<ge> 8 \<and> card (wallet ` set (trailing_window txs)) < 10)"

text \<open>
  Wash trading: the trade count of every wallet, the three highest counts, their share of
  all trades.
\<close>

definition trades_of :: "string \<Rightarrow> tx list \<Rightarrow> nat" where
  "trades_of w txs = length (filter (\<lambda>t. wallet t = w) txs)"

definition wallet_counts :: "tx list \<Rightarrow> nat list" where
  "wallet_counts txs = map (\<lambda>w. trades_of w txs) (remdups (map wallet txs))"

definition top3_counts :: "tx list \<Rightarrow> nat list" where
  "top3_counts txs = take 3 (rev (sort (wallet_counts txs)))"

definition wash_fires :: "tx list \<Rightarrow> bool" where
  "wash_fires txs =
     ((6/10 :: rat) \<le> of_nat (sum_list (top3_counts txs)) / of_nat (length txs) \<and>
      (\<forall>c \<in> set (top3_counts txs). c \<ge> 2))"

text \<open>
  Wallet age: a wallet is first seen at its earliest timestamp among the supplied trades;
  it is fresh when that lies less than 24 hours before the current instant. The surge
  check looks at the distinct wallets, in order of first occurrence, of the last up to 50
  trades in time order.
\<close>

definition first_seen :: "tx list \<Rightarrow> string \<Rightarrow> int" where
  "first_seen txs w = Min (timestamp ` set (filter (\<lambda>t. wallet t = w) txs))"

definition younger_than_24h :: "int \<Rightarrow> int \<Rightarrow> bool" where
  "younger_than_24h now first_ts = (now - first_ts < 86400000000)"

definition first_occurrences :: "'a list \<Rightarrow> 'a list" where
  "first_occurrences xs = rev (remdups (rev xs))"

definition recent_distinct_wallets :: "tx list \<Rightarrow> string list" where
  "recent_distinct_wallets txs =
     first_occurrences (map wallet (rev (take 50 (rev (sort_key timestamp txs)))))"

definition surge_fraction :: "int \<Rightarrow> tx list \<Rightarrow> rat" where
  "surge_fraction now txs =
     of_nat (length (filter (\<lambda>w. younger_than_24h now (first_seen txs w))
                       (recent_distinct_wallets txs)))
       / of_nat (length (recent_distinct_wallets txs))"

text \<open>
  Input order: the trades at the positions 51 and 50 from the end of the time order carry
  the same timestamp. Only then does the order of the input decide which trades the
  slice of the last 50 holds.
\<close>

definition tie_across_cut :: "tx list \<Rightarrow> bool" where
  "tie_across_cut txs =
     (50 < length txs \<and>
      (let ts = sort (map timestamp txs); n = length txs
       in ts ! (n - 51) = ts ! (n - 50)))"

section \<open>Example inputs\<close>

definition trade :: "string \<Rightarrow> int \<Rightarrow> tx" where
  "trade w t = \<lparr>wallet = w, timestamp = t, amount = None\<rparr>"

text \<open>A world whose clock shows \<open>100000\<close> seconds and whose token has a live freeze authority.\<close>

definition frozen_world :: world where
  "frozen_world =
     \<lparr>utcnow = 100000000000,
      simulate_token_authorities = (\<lambda>a. (True, False, [''freezeAuthority active''])),
      get_top_holders_onchain = (\<lambda>a. (0, [])),
      simulate_lp_stability = (\<lambda>a. (0, []))\<rparr>"

text \<open>Five trades of five wallets, one minute apart.\<close>

definition spread_trades :: "tx list" where
  "spread_trades =
     [trade ''w1'' 0, trade ''w2'' 60000000, trade ''w3'' 120000000,
      trade ''w4'' 180000000, trade ''w5'' 240000000]"

text \<open>
  Ten trades: the wallets A, B and C trade 4, 3 and 2 times, D once, half a minute apart.
\<close>

definition wash_trades :: "tx list" where
  "wash_trades =
     [trade ''A'' 0, trade ''B'' 30000000, trade ''A'' 60000000, trade ''C'' 90000000,
      trade ''A'' 120000000, trade ''B'' 150000000, trade ''D'' 180000000,
      trade ''C'' 210000000, trade ''B'' 240000000, trade ''A'' 270000000]"

text \<open>
  Ten trades of ten wallets within one second, all seen for the first time less than a
  day before the clock reading \<open>100000\<close> seconds.
\<close>

definition burst_trades :: "tx list" where
  "burst_trades =
     [trade ''b0'' 90000000000, trade ''b1'' 90000100000, trade ''b2'' 90000200000,
      trade ''b3'' 90000300000, trade ''b4'' 90000400000, trade ''b5'' 90000500000,
      trade ''b6'' 90000600000, trade ''b7'' 90000700000, trade ''b8'' 90000800000,
      trade ''b9'' 90000900000]"

text \<open>Four trades, three of them within two seconds.\<close>

definition mixed_trades :: "tx list" where
  "mixed_trades =
     [trade ''m1'' 0, trade ''m2'' 60000000, trade ''m3'' 61000000, trade ''m4'' 62000000]"

text \<open>A world whose clock shows \<open>100000\<close> seconds and whose look-ups report nothing.\<close>

definition quiet_world :: world where
  "quiet_world =
     \<lparr>utcnow = 100000000000,
      simulate_token_authorities = (\<lambda>a. (False, False, [])),
      get_top_holders_onchain = (\<lambda>a. (0, [])),
      simulate_lp_stability = (\<lambda>a. (0, []))\<rparr>"

text \<open>
  Fifty-one trades. Two of them, of the wallets \<open>a\<close> and \<open>b\<close>, share the earliest
  timestamp 0; the other 49 follow from second 20000 on, ten seconds apart, made in turn
  by \<open>b\<close> and ten further wallets \<open>w0\<close> ... \<open>w9\<close>. The two lists differ only in the order
  of the two tied trades.
\<close>

definition later_trades :: "tx list" where
  "later_trades =
     map (\<lambda>i. trade ([''b'', ''w0'', ''w1'', ''w2'', ''w3'', ''w4'', ''w5'', ''w6'', ''w7'',
                       ''w8'', ''w9''] ! (i mod 11))
                 (20000000000 + 10000000 * int i))
       [0..<49]"

definition tied_ab :: "tx list" where
  "tied_ab = trade ''a'' 0 # trade ''b'' 0 # later_trades"

definition tied_ba :: "tx list" where
  "tied_ba = trade ''b'' 0 # trade ''a'' 0 # later_trades"

text \<open>
  Fifty-two trades whose two latest trades, of the wallets \<open>x\<close> and \<open>y\<close>, share a
  timestamp; the two lists differ only in the order of these two.
\<close>

definition late_tie_xy :: "tx list" where
  "late_tie_xy =
     trade ''a'' 0 # later_trades @ [trade ''x'' 21000000000, trade ''y'' 21000000000]"

definition late_tie_yx :: "tx list" where
  "late_tie_yx =
     trade ''a'' 0 # later_trades @ [trade ''y'' 21000000000, trade ''x'' 21000000000]"

text \<open>A world that differs from \<open>quiet_world\<close> only in its clock, which shows \<open>1000\<close> seconds.\<close>

definition early_world :: world where
  "early_world = quiet_world\<lparr>utcnow := 1000000000\<rparr>"

text \<open>A store with two events at the addresses 0 and 1 and the caller's list at 2.\<close>

definition example_heap :: heap where
  "example_heap =
     \<lparr>cells = [0 \<mapsto> Event (trade ''x'' 5), 1 \<mapsto> Event (trade ''y'' 3),
               2 \<mapsto> EventList [0, 1]],
      next_free = 3\<rparr>"

section \<open>The engine always returns\<close>

lemma advance_start_ok:
  "start \<le> endi \<Longrightarrow> endi < length xs \<Longrightarrow>
     \<exists>s'. advance_start xs endi start = Inr s' \<and> start \<le> s' \<and> s' \<le> endi"
proof (induction xs endi start rule: advance_start.induct)
  case (1 norm_tx endi start)
  show ?case
  proof (cases "timestamp (norm_tx ! endi) - timestamp (norm_tx ! start) > window_size")
    case True
    then have "start \<noteq> endi" by (auto simp: window_size_def)
    with "1.prems" have lt: "start + 1 \<le> endi" by simp
    from "1.IH"[OF _ True lt "1.prems"(2)] "1.prems"
    obtain s' where "advance_start norm_tx endi (start + 1) = Inr s'" "start + 1 \<le> s'" "s' \<le> endi"
      by auto
    with True "1.prems" show ?thesis
      by (subst advance_start.simps) auto
  next
    case False
    with "1.prems" show ?thesis
      by (subst advance_start.simps) auto
  qed
qed

lemma window_scan_ok:
  "start \<le> e \<Longrightarrow> n \<le> length xs \<Longrightarrow> \<exists>m. window_scan xs [e..<n] start m0 = Inr m"
proof (induction "n - e" arbitrary: e start m0)
  case 0
  then show ?case by simp
next
  case (Suc k)
  then have lt: "e < n" by simp
  then have upt: "[e..<n] = e # [Suc e..<n]" by (simp add: upt_conv_Cons)
  from lt Suc.prems have "e < length xs" by simp
  from advance_start_ok[OF Suc.prems(1) this]
  obtain s' where s': "advance_start xs e start = Inr s'" "s' \<le> e" by auto
  have "k = n - Suc e" using Suc.hyps(2) by simp
  from Suc.hyps(1)[OF this, of s'] s'(2) Suc.prems(2)
  have "\<exists>m. window_scan xs [Suc e..<n] s' m1 = Inr m" for m1 by simp
  then show ?case by (simp add: upt s' Let_def)
qed

lemma max_in_window_of_ok: "\<exists>m. max_in_window_of xs = Inr m"
  unfolding max_in_window_of_def by (rule window_scan_ok) simp_all

lemma trade_signals_ok: "\<exists>sig. trade_signals now xs = Inr sig"
proof -
  obtain m where "max_in_window_of xs = Inr m" using max_in_window_of_ok by blast
  then show ?thesis
    by (simp add: trade_signals_def temporal_clustering_def Let_def split: prod.splits)
qed

text \<open>
  The result of a call, written with the values of the locals: no call raises
  \<open>IndexError\<close>.
\<close>

lemma analyze_wallet_clustering_result:
  "\<exists>sig. (if transactions = [] then sig = (0, 0, 0, [])
          else trade_signals (utcnow w) (sort_by_timestamp (norm_tx_of transactions)) = Inr sig) \<and>
     analyze_wallet_clustering w transactions token_address =
       Inr (aggregate (length transactions) sig (token_checks w token_address)
              (wash_trading (if transactions = [] then []
                             else sort_by_timestamp (norm_tx_of transactions))))"
proof (cases "transactions = []")
  case True
  then show ?thesis
    by (simp add: analyze_wallet_clustering_def norm_tx_of_def)
next
  case False
  obtain sig where "trade_signals (utcnow w) (sort_by_timestamp (norm_tx_of transactions)) = Inr sig"
    using trade_signals_ok by blast
  with False show ?thesis
    by (simp add: analyze_wallet_clustering_def norm_tx_of_def Let_def)
qed

section \<open>Floors and the clamp\<close>

lemma clamp_score_range: "0 \<le> clamp_score s \<and> clamp_score s \<le> 100"
  by (simp add: clamp_score_def)

lemma final_score_range:
  "0 \<le> final_score n b m t l f \<and> final_score n b m t l f \<le> 100"
  unfolding final_score_def by (rule clamp_score_range)

lemma authority_floor_ge: "n > 0 \<Longrightarrow> l > 0 \<or> f \<Longrightarrow> 85 \<le> authority_floor n l f s"
  by (auto simp add: authority_floor_def)

lemma clamp_score_ge: "85 \<le> s \<Longrightarrow> 85 \<le> clamp_score s"
  by (simp add: clamp_score_def)

lemma final_score_floor: "n > 0 \<Longrightarrow> l > 0 \<or> f \<Longrightarrow> 85 \<le> final_score n b m t l f"
  unfolding final_score_def by (intro clamp_score_ge authority_floor_ge)

lemma manipulation_score_aggregate:
  "manipulation_score (aggregate n (sq, wa, hv, rs1) (fr, mi, t10, lp, rs2) (wt, rs3)) =
     final_score n (base_risk_score_of n sq) (modifier_of wa hv lp wt) t10 lp fr"
  by simp

lemma wash_trading_Nil: "wash_trading [] = (0, [])"
  by (simp add: wash_trading_def wash_fraction_of_def top_cluster_of_def
      wallet_trade_counts_of_def)

text \<open>
  C2 (clamp invariant). Every call returns an assessment, for any list of trade events,
  with or without a token address and whatever the clock and the look-ups answer, and
  its \<open>manipulation_score\<close> lies between 0 and 100.
\<close>

theorem manipulation_score_clamped:
  "\<exists>r. analyze_wallet_clustering w transactions token_address = Inr r \<and>
       0 \<le> manipulation_score r \<and> manipulation_score r \<le> 100"
proof -
  obtain sig where
    r: "analyze_wallet_clustering w transactions token_address =
          Inr (aggregate (length transactions) sig (token_checks w token_address)
                (wash_trading (if transactions = [] then []
                               else sort_by_timestamp (norm_tx_of transactions))))"
    using analyze_wallet_clustering_result by blast
  obtain sq wa hv rs1 where sig: "sig = (sq, wa, hv, rs1)" by (cases sig) auto
  obtain fr mi t10 lp rs2 where tc: "token_checks w token_address = (fr, mi, t10, lp, rs2)"
    by (cases "token_checks w token_address") auto
  obtain wt rs3 where
    wt: "wash_trading (if transactions = [] then []
                       else sort_by_timestamp (norm_tx_of transactions)) = (wt, rs3)"
    by (cases "wash_trading (if transactions = [] then []
                             else sort_by_timestamp (norm_tx_of transactions))") auto
  show ?thesis
    unfolding r sig tc wt using final_score_range by simp
qed

text \<open>
  C3 (zero-trade floor). With an empty trade list and no token address the call returns
  the score 85, and \<open>reasons\<close> holds the entry
  "Insufficient transaction data for depth analysis.". The base score without trades is
  50, and without trades the zero-data floor turns a score into the larger of it and 85.
\<close>

theorem zero_trade_floor:
  "(\<exists>r. analyze_wallet_clustering w [] None = Inr r \<and> manipulation_score r = 85 \<and>
        Msg ''Insufficient transaction data for depth analysis.'' \<in> set (reasons r)) \<and>
   base_risk_score_of 0 sequential_risk = 50 \<and>
   zero_data_floor 0 score = max 85 score"
proof -
  have "\<exists>r. analyze_wallet_clustering w [] None = Inr r \<and> manipulation_score r = 85 \<and>
        Msg ''Insufficient transaction data for depth analysis.'' \<in> set (reasons r)"
    by (simp add: analyze_wallet_clustering_def norm_tx_of_def token_checks_def wash_trading_Nil
        final_score_def modifier_of_def honeypot_override_def honeypot_risk_def
        top_holder_bonus_def zero_data_floor_def authority_floor_def clamp_score_def
        base_risk_score_of_def collect_reasons_def insufficient_data_def)
  moreover have "base_risk_score_of 0 sequential_risk = 50"
    by (simp add: base_risk_score_of_def)
  moreover have "zero_data_floor 0 score = max 85 score"
    by (simp add: zero_data_floor_def max_def)
  ultimately show ?thesis by (intro conjI)
qed

text \<open>
  C4 (authority/liquidity floor). When there is at least one trade and the look-ups for
  the given token address report a liquidity-lock risk above 0 or a live freeze
  authority, the call returns a score of at least 85.
\<close>

theorem authority_liquidity_floor:
  assumes "transactions \<noteq> []"
    and "token_address = Some addr"
    and "fst (simulate_lp_stability w addr) > 0 \<or> fst (simulate_token_authorities w addr)"
  shows "\<exists>r. analyze_wallet_clustering w transactions token_address = Inr r \<and>
             85 \<le> manipulation_score r"
proof -
  obtain sig where
    r: "analyze_wallet_clustering w transactions token_address =
          Inr (aggregate (length transactions) sig (token_checks w token_address)
                (wash_trading (if transactions = [] then []
                               else sort_by_timestamp (norm_tx_of transactions))))"
    using analyze_wallet_clustering_result by blast
  obtain sq wa hv rs1 where sig: "sig = (sq, wa, hv, rs1)" by (cases sig) auto
  obtain fr mi rs_a where au: "simulate_token_authorities w addr = (fr, mi, rs_a)"
    by (cases "simulate_token_authorities w addr") auto
  obtain t10 rs_t where th: "get_top_holders_onchain w addr = (t10, rs_t)"
    by (cases "get_top_holders_onchain w addr") auto
  obtain lp rs_l where ls: "simulate_lp_stability w addr = (lp, rs_l)"
    by (cases "simulate_lp_stability w addr") auto
  have tc: "token_checks w token_address =
              (fr, mi, t10, lp, map Msg rs_a @ map Msg rs_t @ map Msg rs_l)"
    by (simp add: token_checks_def assms(2) au th ls)
  obtain wt rs3 where
    wt: "wash_trading (if transactions = [] then []
                       else sort_by_timestamp (norm_tx_of transactions)) = (wt, rs3)"
    by (cases "wash_trading (if transactions = [] then []
                             else sort_by_timestamp (norm_tx_of transactions))") auto
  from assms(3) have "lp > 0 \<or> fr" by (simp add: au ls)
  moreover from assms(1) have "length transactions > 0" by simp
  ultimately have "85 \<le> final_score (length transactions) (base_risk_score_of (length transactions) sq)
                          (modifier_of wa hv lp wt) t10 lp fr"
    by (rule final_score_floor[rotated])
  then show ?thesis
    unfolding r sig tc wt by simp
qed

theorem authority_liquidity_floor_witness:
  "spread_trades \<noteq> [] \<and>
   (fst (simulate_lp_stability frozen_world ''tok'') > 0 \<or>
      fst (simulate_token_authorities frozen_world ''tok'')) \<and>
   (\<exists>r. analyze_wallet_clustering frozen_world spread_trades (Some ''tok'') = Inr r \<and>
        85 \<le> manipulation_score r)"
  using authority_liquidity_floor [of spread_trades "Some ''tok''" "''tok''" frozen_world]
  by (simp add: spread_trades_def frozen_world_def)

section \<open>The sorted list against the caller's list\<close>

lemma normalize_tx_id [simp]: "normalize_tx t = t"
  by (simp add: normalize_tx_def)

lemma norm_tx_of_id [simp]: "norm_tx_of txs = txs"
  by (simp add: norm_tx_of_def map_idI)

lemma mset_sort_by_timestamp [simp]: "mset (sort_by_timestamp txs) = mset txs"
  by (simp add: sort_by_timestamp_def)

lemma set_sort_by_timestamp [simp]: "set (sort_by_timestamp txs) = set txs"
  by (simp add: sort_by_timestamp_def)

lemma length_sort_by_timestamp [simp]: "length (sort_by_timestamp txs) = length txs"
  by (simp add: sort_by_timestamp_def)

lemma sorted_sort_by_timestamp: "sorted (map timestamp (sort_by_timestamp txs))"
  by (simp add: sort_by_timestamp_def)

lemma sort_by_timestamp_Nil_iff [simp]: "sort_by_timestamp txs = [] \<longleftrightarrow> txs = []"
  by (metis length_0_conv length_sort_by_timestamp)

lemma length_filter_mset_cong:
  "mset xs = mset ys \<Longrightarrow> length (filter P xs) = length (filter P ys)"
  by (metis mset_filter size_mset)

lemma sorted_last_Max: "sorted xs \<Longrightarrow> xs \<noteq> [] \<Longrightarrow> last xs = Max (set xs)"
proof (induction xs)
  case Nil
  then show ?case by simp
next
  case (Cons x xs)
  show ?case
  proof (cases "xs = []")
    case True
    then show ?thesis by simp
  next
    case False
    with Cons have "last xs = Max (set xs)" by simp
    moreover from Cons.prems False have "x \<le> Max (set xs)"
      by (metis List.finite_set Max_ge last_in_set calculation order_trans sorted_simps(2))
    ultimately show ?thesis using False by (simp add: max_def)
  qed
qed

lemma latest_ts_sorted:
  assumes "txs \<noteq> []"
  shows "timestamp (last (sort_by_timestamp txs)) = latest_timestamp txs"
proof -
  let ?s = "sort_by_timestamp txs"
  have ne: "map timestamp ?s \<noteq> []" using assms by simp
  have "timestamp (last ?s) = last (map timestamp ?s)"
    using ne by (simp add: last_map)
  also have "\<dots> = Max (set (map timestamp ?s))"
    using sorted_last_Max[OF sorted_sort_by_timestamp ne] .
  finally show ?thesis by (simp add: latest_timestamp_def)
qed

section \<open>Temporal clustering\<close>

lemma advance_start_spec:
  assumes "start \<le> endi" "endi < length xs"
    and "\<forall>i<start. timestamp (xs ! endi) - timestamp (xs ! i) > window_size"
  shows "\<exists>s'. advance_start xs endi start = Inr s' \<and> start \<le> s' \<and> s' \<le> endi \<and>
           timestamp (xs ! endi) - timestamp (xs ! s') \<le> window_size \<and>
           (\<forall>i<s'. timestamp (xs ! endi) - timestamp (xs ! i) > window_size)"
  using assms
proof (induction xs endi start rule: advance_start.induct)
  case (1 norm_tx endi start)
  show ?case
  proof (cases "timestamp (norm_tx ! endi) - timestamp (norm_tx ! start) > window_size")
    case True
    then have "start \<noteq> endi" by (auto simp: window_size_def)
    with "1.prems" have lt: "start + 1 \<le> endi" by simp
    have inv: "\<forall>i<start + 1. timestamp (norm_tx ! endi) - timestamp (norm_tx ! i) > window_size"
      using "1.prems"(3) True by (auto simp: less_Suc_eq)
    from "1.IH"[OF _ True lt "1.prems"(2) inv] "1.prems"
    obtain s' where "advance_start norm_tx endi (start + 1) = Inr s'" "start + 1 \<le> s'" "s' \<le> endi"
      "timestamp (norm_tx ! endi) - timestamp (norm_tx ! s') \<le> window_size"
      "\<forall>i<s'. timestamp (norm_tx ! endi) - timestamp (norm_tx ! i) > window_size"
      by auto
    with True "1.prems" show ?thesis
      by (subst advance_start.simps) auto
  next
    case False
    with "1.prems" show ?thesis
      by (subst advance_start.simps) auto
  qed
qed

lemma window_count_eq:
  assumes srt: "sorted (map timestamp xs)" and "s' \<le> e" "e < length xs"
    and le: "timestamp (xs ! e) - timestamp (xs ! s') \<le> window_size"
    and gt: "\<forall>i<s'. timestamp (xs ! e) - timestamp (xs ! i) > window_size"
  shows "int e - int s' + 1 = count_back xs e"
proof -
  let ?P = "\<lambda>t. timestamp (xs ! e) - window_size \<le> timestamp t"
  have split: "take (Suc e) xs = take s' xs @ drop s' (take (Suc e) xs)"
    using assms(2) by (metis append_take_drop_id le_SucI min.absorb1 take_take)
  have a: "filter ?P (take s' xs) = []"
  proof -
    have "\<not> ?P t" if "t \<in> set (take s' xs)" for t
    proof -
      from that obtain i where "i < s'" "i < length xs" "t = xs ! i"
        by (auto simp: in_set_conv_nth)
      with gt show ?thesis by auto
    qed
    then show ?thesis by (simp add: filter_empty_conv)
  qed
  have b: "filter ?P (drop s' (take (Suc e) xs)) = drop s' (take (Suc e) xs)"
  proof -
    have "?P t" if "t \<in> set (drop s' (take (Suc e) xs))" for t
    proof -
      from that obtain i where i: "i < length (drop s' (take (Suc e) xs))"
        "t = drop s' (take (Suc e) xs) ! i"
        by (auto simp: in_set_conv_nth)
      then have t: "t = xs ! (s' + i)" and lt: "s' + i < length xs" using assms(3) by auto
      have "timestamp (xs ! s') \<le> timestamp (xs ! (s' + i))"
        using sorted_nth_mono[OF srt, of s' "s' + i"] lt by simp
      with le t show ?thesis by simp
    qed
    then show ?thesis by (simp add: filter_id_conv)
  qed
  have "filter ?P (take (Suc e) xs) = drop s' (take (Suc e) xs)"
    by (subst split) (simp add: a b)
  then have "count_back xs e = int (length (drop s' (take (Suc e) xs)))"
    by (simp add: count_back_def)
  also have "\<dots> = int (Suc e - s')" using assms(3) by (auto simp: min_def)
  finally show ?thesis using assms(2) by simp
qed

lemma window_scan_eq:
  assumes srt: "sorted (map timestamp xs)"
  shows "start \<le> e \<Longrightarrow> n \<le> length xs \<Longrightarrow>
     (e < n \<longrightarrow> (\<forall>i<start. timestamp (xs ! e) - timestamp (xs ! i) > window_size)) \<Longrightarrow>
     window_scan xs [e..<n] start m0 = Inr (Max (insert m0 (count_back xs ` {e..<n})))"
proof (induction "n - e" arbitrary: e start m0)
  case 0
  then show ?case by simp
next
  case (Suc k)
  then have lt: "e < n" by simp
  then have upt: "[e..<n] = e # [Suc e..<n]" by (simp add: upt_conv_Cons)
  from lt Suc.prems have el: "e < length xs" by simp
  from Suc.prems(3) lt have inv: "\<forall>i<start. timestamp (xs ! e) - timestamp (xs ! i) > window_size"
    by simp
  from advance_start_spec[OF Suc.prems(1) el inv]
  obtain s' where s': "advance_start xs e start = Inr s'" "s' \<le> e"
      "timestamp (xs ! e) - timestamp (xs ! s') \<le> window_size"
      "\<forall>i<s'. timestamp (xs ! e) - timestamp (xs ! i) > window_size"
    by auto
  have wc: "int e - int s' + 1 = count_back xs e"
    by (rule window_count_eq[OF srt s'(2) el s'(3) s'(4)])
  have k: "k = n - Suc e" using Suc.hyps(2) by simp
  have inv': "Suc e < n \<longrightarrow> (\<forall>i<s'. timestamp (xs ! Suc e) - timestamp (xs ! i) > window_size)"
  proof (intro impI allI)
    fix i assume "Suc e < n" "i < s'"
    then have "timestamp (xs ! e) \<le> timestamp (xs ! Suc e)"
      using sorted_nth_mono[OF srt, of e "Suc e"] Suc.prems(2) by simp
    with s'(4) \<open>i < s'\<close> show "timestamp (xs ! Suc e) - timestamp (xs ! i) > window_size"
      by fastforce
  qed
  have "s' \<le> Suc e" using s'(2) by simp
  from Suc.hyps(1)[OF k this Suc.prems(2) inv']
  have ih: "window_scan xs [Suc e..<n] s' m1 = Inr (Max (insert m1 (count_back xs ` {Suc e..<n})))" for m1 .
  have set_eq: "{e..<n} = insert e {Suc e..<n}" using lt by auto
  have mx: "Max (insert (max m0 (count_back xs e)) (count_back xs ` {Suc e..<n})) =
            Max (insert m0 (count_back xs ` {e..<n}))"
    unfolding set_eq
    by (cases "{Suc e..<n} = {}") (simp_all add: max.assoc max.commute max.left_commute)
  have "(if count_back xs e > m0 then count_back xs e else m0) = max m0 (count_back xs e)"
    by (simp add: max_def)
  then show ?case
    by (simp add: upt s'(1) Let_def wc ih mx)
qed

lemma length_filter_mono:
  "(\<And>x. x \<in> set xs \<Longrightarrow> P x \<Longrightarrow> Q x) \<Longrightarrow> length (filter P xs) \<le> length (filter Q xs)"
  by (induction xs) auto

lemma span_count_mset: "mset xs = mset ys \<Longrightarrow> span_count xs a = span_count ys a"
  unfolding span_count_def by (rule length_filter_mset_cong)

lemma max_in_span_mset: "mset xs = mset ys \<Longrightarrow> max_in_span xs = max_in_span ys"
proof -
  assume m: "mset xs = mset ys"
  then have "set xs = set ys" by (rule mset_eq_setD)
  moreover have "span_count xs = span_count ys" using span_count_mset[OF m] by auto
  ultimately show ?thesis by (simp add: max_in_span_def)
qed

lemma span_count_le_max:
  assumes "t \<in> set xs"
  shows "span_count xs (timestamp t - 2000000) \<le> max_in_span xs"
  unfolding max_in_span_def using assms by (intro Max_ge) auto

text \<open>No span of two seconds, wherever it starts, holds more trades than \<open>max_in_span\<close>.\<close>

lemma span_count_bound:
  "span_count xs a \<le> max_in_span xs"
proof (cases "filter (\<lambda>t. a \<le> timestamp t \<and> timestamp t \<le> a + 2000000) xs = []")
  case True
  then show ?thesis by (simp add: span_count_def)
next
  case False
  let ?W = "filter (\<lambda>t. a \<le> timestamp t \<and> timestamp t \<le> a + 2000000) xs"
  let ?T = "timestamp ` set ?W"
  have "finite ?T" "?T \<noteq> {}" using False by (auto simp: filter_empty_conv)
  then have "Max ?T \<in> ?T" by (rule Max_in)
  then obtain t where t: "t \<in> set ?W" "timestamp t = Max ?T" by auto
  have "span_count xs a \<le> span_count xs (timestamp t - 2000000)"
    unfolding span_count_def
  proof (rule length_filter_mono)
    fix x assume "x \<in> set xs" and x: "a \<le> timestamp x \<and> timestamp x \<le> a + 2000000"
    then have "timestamp x \<in> ?T" by auto
    then have "timestamp x \<le> timestamp t" unfolding t(2) by (intro Max_ge) auto
    moreover from t(1) have "timestamp t \<le> a + 2000000" by simp
    ultimately show "timestamp t - 2000000 \<le> timestamp x \<and> timestamp x \<le> timestamp t - 2000000 + 2000000"
      using x by simp
  qed
  also have "\<dots> \<le> max_in_span xs" using t(1) by (intro span_count_le_max) simp
  finally show ?thesis .
qed

lemma span_count_attained:
  assumes "xs \<noteq> []"
  shows "\<exists>a. span_count xs a = max_in_span xs"
proof -
  let ?S = "(\<lambda>t. span_count xs (timestamp t - 2000000)) ` set xs"
  have "finite ?S" "?S \<noteq> {}" using assms by auto
  then have "Max ?S \<in> ?S" by (rule Max_in)
  then show ?thesis unfolding max_in_span_def by auto
qed

lemma count_back_le:
  assumes srt: "sorted (map timestamp xs)" and e: "e < length xs"
  shows "count_back xs e \<le> int (max_in_span xs)"
proof -
  let ?te = "timestamp (xs ! e)"
  have "length (filter (\<lambda>t. ?te - window_size \<le> timestamp t) (take (Suc e) xs))
      \<le> length (filter (\<lambda>t. ?te - 2000000 \<le> timestamp t \<and> timestamp t \<le> ?te - 2000000 + 2000000) (take (Suc e) xs))"
  proof (rule length_filter_mono)
    fix x assume "x \<in> set (take (Suc e) xs)" and p: "?te - window_size \<le> timestamp x"
    then obtain i where "i < Suc e" "x = xs ! i" using e by (auto simp: in_set_conv_nth)
    then have "timestamp x \<le> ?te" using sorted_nth_mono[OF srt, of i e] e by simp
    with p show "?te - 2000000 \<le> timestamp x \<and> timestamp x \<le> ?te - 2000000 + 2000000"
      by (simp add: window_size_def)
  qed
  also have "\<dots> \<le> length (filter (\<lambda>t. ?te - 2000000 \<le> timestamp t \<and> timestamp t \<le> ?te - 2000000 + 2000000) xs)"
  proof -
    have "filter (\<lambda>t. ?te - 2000000 \<le> timestamp t \<and> timestamp t \<le> ?te - 2000000 + 2000000) xs =
          filter (\<lambda>t. ?te - 2000000 \<le> timestamp t \<and> timestamp t \<le> ?te - 2000000 + 2000000) (take (Suc e) xs) @
          filter (\<lambda>t. ?te - 2000000 \<le> timestamp t \<and> timestamp t \<le> ?te - 2000000 + 2000000) (drop (Suc e) xs)"
      by (metis append_take_drop_id filter_append)
    then show ?thesis by simp
  qed
  also have "\<dots> = span_count xs (?te - 2000000)" by (simp add: span_count_def)
  also have "\<dots> \<le> max_in_span xs" using e by (intro span_count_le_max) simp
  finally show ?thesis by (simp add: count_back_def)
qed

lemma count_back_ge:
  assumes srt: "sorted (map timestamp xs)" and t: "t \<in> set xs"
  shows "\<exists>e<length xs. int (span_count xs (timestamp t - 2000000)) \<le> count_back xs e"
proof -
  let ?I = "{i. i < length xs \<and> timestamp (xs ! i) \<le> timestamp t}"
  from t obtain i0 where i0: "i0 < length xs" "xs ! i0 = t" by (auto simp: in_set_conv_nth)
  have fin: "finite ?I" by simp
  have ne: "?I \<noteq> {}" using i0 by auto
  define e where "e = Max ?I"
  have eI: "e \<in> ?I" unfolding e_def using fin ne by (rule Max_in)
  then have el: "e < length xs" and ele: "timestamp (xs ! e) \<le> timestamp t" by auto
  have "i0 \<le> e" unfolding e_def using i0 by (intro Max_ge) auto
  then have "timestamp t \<le> timestamp (xs ! e)"
    using sorted_nth_mono[OF srt, of i0 e] el i0 by simp
  with ele have te: "timestamp (xs ! e) = timestamp t" by simp
  let ?Q = "\<lambda>x. timestamp t - 2000000 \<le> timestamp x \<and> timestamp x \<le> timestamp t - 2000000 + 2000000"
  have after: "filter ?Q (drop (Suc e) xs) = []"
  proof -
    have "\<not> ?Q x" if "x \<in> set (drop (Suc e) xs)" for x
    proof -
      from that obtain j where j: "j < length (drop (Suc e) xs)" "x = drop (Suc e) xs ! j"
        by (auto simp: in_set_conv_nth)
      then have x: "x = xs ! (Suc e + j)" and jl: "Suc e + j < length xs" using el by auto
      have "Suc e + j \<notin> ?I"
      proof
        assume "Suc e + j \<in> ?I"
        then have "Suc e + j \<le> e" unfolding e_def by (intro Max_ge) auto
        then show False by simp
      qed
      with jl x show ?thesis by auto
    qed
    then show ?thesis by (simp add: filter_empty_conv)
  qed
  have "filter ?Q xs = filter ?Q (take (Suc e) xs) @ filter ?Q (drop (Suc e) xs)"
    by (metis append_take_drop_id filter_append)
  then have "span_count xs (timestamp t - 2000000) = length (filter ?Q (take (Suc e) xs))"
    unfolding span_count_def after by (simp only: append_Nil2)
  also have "\<dots> \<le> length (filter (\<lambda>x. timestamp (xs ! e) - window_size \<le> timestamp x) (take (Suc e) xs))"
    by (rule length_filter_mono) (simp add: te window_size_def)
  finally have "int (span_count xs (timestamp t - 2000000)) \<le> count_back xs e"
    by (simp add: count_back_def)
  with el show ?thesis by blast
qed

lemma count_back_pos: "e < length xs \<Longrightarrow> 1 \<le> count_back xs e"
proof -
  assume e: "e < length xs"
  then have "xs ! e \<in> set (filter (\<lambda>t. timestamp (xs ! e) - window_size \<le> timestamp t) (take (Suc e) xs))"
    by (auto simp: in_set_conv_nth window_size_def intro!: exI[of _ e])
  then have "0 < length (filter (\<lambda>t. timestamp (xs ! e) - window_size \<le> timestamp t) (take (Suc e) xs))"
    by (metis length_pos_if_in_set)
  then show ?thesis unfolding count_back_def by linarith
qed

lemma max_in_window_sorted:
  assumes srt: "sorted (map timestamp xs)" and ne: "xs \<noteq> []"
  shows "max_in_window_of xs = Inr (int (max_in_span xs))"
proof -
  let ?C = "count_back xs ` {0..<length xs}"
  have scan: "max_in_window_of xs = Inr (Max (insert 1 ?C))"
    unfolding max_in_window_of_def
    by (rule window_scan_eq[OF srt]) simp_all
  have fin: "finite ?C" by simp
  have neC: "?C \<noteq> {}" using ne by simp
  have up: "Max (insert 1 ?C) \<le> int (max_in_span xs)"
  proof -
    obtain t where t: "t \<in> set xs" using ne by (cases xs) auto
    from count_back_ge[OF srt t] obtain e where "e < length xs"
      "int (span_count xs (timestamp t - 2000000)) \<le> count_back xs e" by blast
    with count_back_pos[of e xs] count_back_le[OF srt, of e]
    have "1 \<le> int (max_in_span xs)" by linarith
    moreover have "\<forall>c\<in>?C. c \<le> int (max_in_span xs)"
      using count_back_le[OF srt] by auto
    ultimately show ?thesis using fin by simp
  qed
  have low: "int (max_in_span xs) \<le> Max (insert 1 ?C)"
  proof -
    let ?S = "(\<lambda>t. span_count xs (timestamp t - 2000000)) ` set xs"
    have "finite ?S" "?S \<noteq> {}" using ne by auto
    then have "Max ?S \<in> ?S" by (rule Max_in)
    then obtain t where t: "t \<in> set xs" "max_in_span xs = span_count xs (timestamp t - 2000000)"
      unfolding max_in_span_def by auto
    from count_back_ge[OF srt t(1)] obtain e where e: "e < length xs"
      "int (span_count xs (timestamp t - 2000000)) \<le> count_back xs e" by blast
    have "count_back xs e \<le> Max (insert 1 ?C)"
      using e(1) fin by (intro Max_ge) auto
    with e(2) t(2) show ?thesis by simp
  qed
  from up low have "Max (insert 1 ?C) = int (max_in_span xs)" by (rule antisym)
  with scan show ?thesis by (simp only:)
qed

lemma max_in_window_refines:
  assumes "txs \<noteq> []"
  shows "max_in_window_of (sort_by_timestamp txs) = Inr (int (max_in_span txs))"
proof -
  have "max_in_window_of (sort_by_timestamp txs) = Inr (int (max_in_span (sort_by_timestamp txs)))"
    using assms by (intro max_in_window_sorted sorted_sort_by_timestamp) simp
  also have "max_in_span (sort_by_timestamp txs) = max_in_span txs"
    by (rule max_in_span_mset) simp
  finally show ?thesis .
qed

lemma clustered_fraction_single: "clustered_fraction [t] = 1"
  by (simp add: clustered_fraction_def max_in_span_def span_count_def)

lemma temporal_clustering_refines:
  assumes "txs \<noteq> []"
  shows "\<exists>rs. temporal_clustering (sort_by_timestamp txs) =
           Inr (sequential_risk_of (clustered_fraction txs), rs)"
  by (simp add: temporal_clustering_def max_in_window_refines[OF assms] Let_def
      clustered_fraction_def)

lemma trade_signals_sequential:
  assumes "txs \<noteq> []"
  shows "\<exists>wa hv rs. trade_signals now (sort_by_timestamp txs) =
           Inr (sequential_risk_of (clustered_fraction txs), wa, hv, rs)"
proof -
  obtain rs1 where "temporal_clustering (sort_by_timestamp txs) =
      Inr (sequential_risk_of (clustered_fraction txs), rs1)"
    using temporal_clustering_refines[OF assms] by blast
  then show ?thesis
    by (simp add: trade_signals_def split: prod.splits)
qed

text \<open>
  C6 (sequential risk). For a non-empty trade list, \<open>max_in_span\<close> is the largest number
  of trades in any span of two seconds (ends included), and with
  \<open>clustered_fraction = max_in_span / total\<close> the signal block returns a
  \<open>sequential_risk\<close> of 0 when the fraction is at most 0.5, of 1 when it is at least 1, and
  of \<open>(fraction - 0.5) / 0.5\<close> in between; a single trade has fraction 1 and risk 1.
\<close>

theorem sequential_risk_mapping:
  assumes "transactions \<noteq> []"
  shows "(\<forall>a. span_count transactions a \<le> max_in_span transactions) \<and>
         (\<exists>a. span_count transactions a = max_in_span transactions) \<and>
         (\<exists>sequential_risk wallet_age_risk hvld_risk rs.
            trade_signals now_utc (sort_by_timestamp (norm_tx_of transactions)) =
              Inr (sequential_risk, wallet_age_risk, hvld_risk, rs) \<and>
            (clustered_fraction transactions \<le> 1/2 \<longrightarrow> sequential_risk = 0) \<and>
            (clustered_fraction transactions \<ge> 1 \<longrightarrow> sequential_risk = 1) \<and>
            (1/2 < clustered_fraction transactions \<and> clustered_fraction transactions < 1 \<longrightarrow>
               sequential_risk = (clustered_fraction transactions - 1/2) / (1/2)) \<and>
            (length transactions = 1 \<longrightarrow>
               clustered_fraction transactions = 1 \<and> sequential_risk = 1))"
proof -
  obtain wa hv rs where
    ts: "trade_signals now_utc (sort_by_timestamp (norm_tx_of transactions)) =
           Inr (sequential_risk_of (clustered_fraction transactions), wa, hv, rs)"
    using trade_signals_sequential[OF assms, of now_utc] by auto
  have single: "clustered_fraction transactions = 1" if "length transactions = 1"
  proof -
    from that obtain t where "transactions = [t]"
      by (cases transactions) auto
    then show ?thesis by (simp add: clustered_fraction_single)
  qed
  have m: "(clustered_fraction transactions \<le> 1/2 \<longrightarrow>
              sequential_risk_of (clustered_fraction transactions) = 0) \<and>
           (clustered_fraction transactions \<ge> 1 \<longrightarrow>
              sequential_risk_of (clustered_fraction transactions) = 1) \<and>
           (1/2 < clustered_fraction transactions \<and> clustered_fraction transactions < 1 \<longrightarrow>
              sequential_risk_of (clustered_fraction transactions) =
                (clustered_fraction transactions - 1/2) / (1/2)) \<and>
           (length transactions = 1 \<longrightarrow>
              clustered_fraction transactions = 1 \<and>
              sequential_risk_of (clustered_fraction transactions) = 1)"
    using single by (auto simp: sequential_risk_of_def)
  from ts m have "\<exists>sequential_risk wallet_age_risk hvld_risk rs.
            trade_signals now_utc (sort_by_timestamp (norm_tx_of transactions)) =
              Inr (sequential_risk, wallet_age_risk, hvld_risk, rs) \<and>
            (clustered_fraction transactions \<le> 1/2 \<longrightarrow> sequential_risk = 0) \<and>
            (clustered_fraction transactions \<ge> 1 \<longrightarrow> sequential_risk = 1) \<and>
            (1/2 < clustered_fraction transactions \<and> clustered_fraction transactions < 1 \<longrightarrow>
               sequential_risk = (clustered_fraction transactions - 1/2) / (1/2)) \<and>
            (length transactions = 1 \<longrightarrow>
               clustered_fraction transactions = 1 \<and> sequential_risk = 1)"
    by blast
  with span_count_bound span_count_attained[OF assms] show ?thesis by blast
qed

theorem sequential_risk_mapping_witness:
  "spread_trades \<noteq> [] \<and> clustered_fraction spread_trades \<le> 1/2 \<and>
   (\<exists>wa hv rs. trade_signals 100000000000 (sort_by_timestamp (norm_tx_of spread_trades)) =
      Inr (0, wa, hv, rs)) \<and>
   burst_trades \<noteq> [] \<and> clustered_fraction burst_trades \<ge> 1 \<and>
   (\<exists>wa hv rs. trade_signals 100000000000 (sort_by_timestamp (norm_tx_of burst_trades)) =
      Inr (1, wa, hv, rs)) \<and>
   mixed_trades \<noteq> [] \<and> clustered_fraction mixed_trades = 3/4 \<and>
   (\<exists>wa hv rs. trade_signals 100000000000 (sort_by_timestamp (norm_tx_of mixed_trades)) =
      Inr (1/2, wa, hv, rs)) \<and>
   length [trade ''w1'' 0] = 1 \<and>
   (\<exists>wa hv rs. trade_signals 100000000000 (sort_by_timestamp (norm_tx_of [trade ''w1'' 0])) =
      Inr (1, wa, hv, rs))"
proof -
  have a: "spread_trades \<noteq> []" by (simp add: spread_trades_def)
  have a': "clustered_fraction spread_trades \<le> 1/2" by code_simp
  have b: "burst_trades \<noteq> []" by (simp add: burst_trades_def)
  have b': "clustered_fraction burst_trades \<ge> 1" by code_simp
  have c: "mixed_trades \<noteq> []" by (simp add: mixed_trades_def)
  have c': "clustered_fraction mixed_trades = 3/4" by code_simp
  have d: "[trade ''w1'' 0] \<noteq> []" by simp
  from sequential_risk_mapping[OF a, of 100000000000]
  obtain sr1 wa1 hv1 rs1 where
    "trade_signals 100000000000 (sort_by_timestamp (norm_tx_of spread_trades)) =
       Inr (sr1, wa1, hv1, rs1)"
    "clustered_fraction spread_trades \<le> 1/2 \<longrightarrow> sr1 = 0"
    by (elim conjE exE)
  with a' have 1: "\<exists>wa hv rs. trade_signals 100000000000 (sort_by_timestamp (norm_tx_of spread_trades)) =
      Inr (0, wa, hv, rs)" by blast
  from sequential_risk_mapping[OF b, of 100000000000]
  obtain sr2 wa2 hv2 rs2 where
    "trade_signals 100000000000 (sort_by_timestamp (norm_tx_of burst_trades)) =
       Inr (sr2, wa2, hv2, rs2)"
    "clustered_fraction burst_trades \<ge> 1 \<longrightarrow> sr2 = 1"
    by (elim conjE exE)
  with b' have 2: "\<exists>wa hv rs. trade_signals 100000000000 (sort_by_timestamp (norm_tx_of burst_trades)) =
      Inr (1, wa, hv, rs)" by blast
  from sequential_risk_mapping[OF c, of 100000000000]
  obtain sr3 wa3 hv3 rs3 where
    "trade_signals 100000000000 (sort_by_timestamp (norm_tx_of mixed_trades)) =
       Inr (sr3, wa3, hv3, rs3)"
    "1/2 < clustered_fraction mixed_trades \<and> clustered_fraction mixed_trades < 1 \<longrightarrow>
       sr3 = (clustered_fraction mixed_trades - 1/2) / (1/2)"
    by (elim conjE exE)
  with c' have 3: "\<exists>wa hv rs. trade_signals 100000000000 (sort_by_timestamp (norm_tx_of mixed_trades)) =
      Inr (1/2, wa, hv, rs)" by auto
  from sequential_risk_mapping[OF d, of 100000000000]
  obtain sr4 wa4 hv4 rs4 where
    "trade_signals 100000000000 (sort_by_timestamp (norm_tx_of [trade ''w1'' 0])) =
       Inr (sr4, wa4, hv4, rs4)"
    "length [trade ''w1'' 0] = 1 \<longrightarrow> clustered_fraction [trade ''w1'' 0] = 1 \<and> sr4 = 1"
    by (elim conjE exE)
  then have 4: "\<exists>wa hv rs. trade_signals 100000000000 (sort_by_timestamp (norm_tx_of [trade ''w1'' 0])) =
      Inr (1, wa, hv, rs)" by auto
  from a a' b b' c c' 1 2 3 4 show ?thesis by simp
qed

section \<open>Volume and diversity\<close>

lemma hvld_refines:
  assumes "txs \<noteq> []"
  shows "fst (high_volume_low_diversity (sort_by_timestamp txs)) = (if hvld_fires txs then 1 else 0)"
proof -
  let ?s = "sort_by_timestamp txs"
  let ?P = "\<lambda>t. latest_timestamp txs - 300000000 \<le> timestamp t"
  have w: "last_5m_txs_of ?s = filter ?P ?s"
    by (simp add: last_5m_txs_of_def latest_ts_sorted[OF assms])
  have len: "length (last_5m_txs_of ?s) = length (trailing_window txs)"
    unfolding w trailing_window_def by (rule length_filter_mset_cong) simp
  have st: "set (last_5m_txs_of ?s) = set (trailing_window txs)"
    unfolding w trailing_window_def by simp
  show ?thesis
    by (simp add: high_volume_low_diversity_def Let_def hvld_fires_def len st)
qed

text \<open>
  C9 (high volume, low diversity). For a non-empty trade list the block that computes
  the trade signals returns, as \<open>hvld_risk\<close>, 1 when at least 8 trades have a timestamp of
  at least the latest timestamp minus five minutes and fewer than 10 distinct wallets
  made them, and 0 otherwise.
\<close>

theorem hvld_signal:
  assumes "transactions \<noteq> []"
  shows "\<exists>sequential_risk wallet_age_risk rs.
           trade_signals now_utc (sort_by_timestamp (norm_tx_of transactions)) =
             Inr (sequential_risk, wallet_age_risk,
                  if hvld_fires transactions then 1 else 0, rs)"
proof -
  let ?s = "sort_by_timestamp (norm_tx_of transactions)"
  obtain sig where sig: "trade_signals now_utc ?s = Inr sig"
    using trade_signals_ok by blast
  obtain sq wa hv rs where t: "sig = (sq, wa, hv, rs)" by (cases sig) auto
  from sig t have "hv = fst (high_volume_low_diversity ?s)"
    by (auto simp: trade_signals_def split: sum.splits prod.splits)
  with hvld_refines[OF assms] sig t show ?thesis by simp
qed

theorem hvld_signal_witness:
  "wash_trades \<noteq> [] \<and> hvld_fires wash_trades \<and>
   (\<exists>sequential_risk wallet_age_risk rs.
      trade_signals 100000000000 (sort_by_timestamp (norm_tx_of wash_trades)) =
        Inr (sequential_risk, wallet_age_risk, 1, rs))"
proof -
  have ne: "wash_trades \<noteq> []" by (simp add: wash_trades_def)
  have f: "hvld_fires wash_trades" by code_simp
  from hvld_signal[OF ne, of 100000000000] ne f show ?thesis by simp
qed

section \<open>Wash trading\<close>

lemma dict_fromkeys_snoc:
  "dict_fromkeys (xs @ [x]) =
     (if x \<in> set (dict_fromkeys xs) then dict_fromkeys xs else dict_fromkeys xs @ [x])"
  by (simp add: dict_fromkeys_def)

lemma dict_fromkeys_Nil [simp]: "dict_fromkeys [] = []"
  by (simp add: dict_fromkeys_def)

lemma set_dict_fromkeys [simp]: "set (dict_fromkeys xs) = set xs"
  by (induction xs rule: rev_induct) (auto simp: dict_fromkeys_snoc)

lemma distinct_dict_fromkeys [simp]: "distinct (dict_fromkeys xs)"
  by (induction xs rule: rev_induct) (auto simp: dict_fromkeys_snoc)

lemma mset_dict_fromkeys: "mset (dict_fromkeys xs) = mset (remdups xs)"
  by (metis distinct_dict_fromkeys distinct_remdups set_dict_fromkeys set_remdups
      set_eq_iff_mset_eq_distinct)

lemma wallet_trade_counts_snoc:
  "wallet_trade_counts_of (xs @ [t]) = bump (wallet t) (wallet_trade_counts_of xs)"
  by (simp add: wallet_trade_counts_of_def)

lemma bump_map_in:
  "distinct ks \<Longrightarrow> w \<in> set ks \<Longrightarrow>
     bump w (map (\<lambda>k. (k, f k)) ks) = map (\<lambda>k. (k, if k = w then f k + 1 else f k)) ks"
  by (induction ks) auto

lemma bump_map_notin:
  "w \<notin> set ks \<Longrightarrow> bump w (map (\<lambda>k. (k, f k)) ks) = map (\<lambda>k. (k, f k)) ks @ [(w, 1)]"
  by (induction ks) auto

lemma trades_of_snoc:
  "trades_of k (xs @ [t]) = (if wallet t = k then trades_of k xs + 1 else trades_of k xs)"
  by (simp add: trades_of_def)

lemma trades_of_0: "k \<notin> wallet ` set xs \<Longrightarrow> trades_of k xs = 0"
  by (auto simp: trades_of_def filter_empty_conv)

lemma wallet_trade_counts_eq:
  "wallet_trade_counts_of xs = map (\<lambda>k. (k, trades_of k xs)) (dict_fromkeys (map wallet xs))"
proof (induction xs rule: rev_induct)
  case Nil
  then show ?case by (simp add: wallet_trade_counts_of_def)
next
  case (snoc t xs)
  let ?ks = "dict_fromkeys (map wallet xs)"
  show ?case
  proof (cases "wallet t \<in> set ?ks")
    case True
    then show ?thesis
      using bump_map_in[of ?ks "wallet t" "\<lambda>k. trades_of k xs"]
      by (auto simp: wallet_trade_counts_snoc snoc.IH dict_fromkeys_snoc trades_of_snoc)
  next
    case False
    then have "trades_of (wallet t) xs = 0" by (intro trades_of_0) simp
    with False show ?thesis
      using bump_map_notin[of "wallet t" ?ks "\<lambda>k. trades_of k xs"]
      by (auto simp: wallet_trade_counts_snoc snoc.IH dict_fromkeys_snoc trades_of_snoc)
  qed
qed

lemma map_insort_key: "map f (insort_key f x xs) = insort (f x) (map f xs)"
  by (induction xs) auto

lemma map_sort_key: "map f (sort_key f xs) = sort (map f xs)"
  by (induction xs) (auto simp: map_insort_key)

lemma sorted_map_uminus_rev: "sorted (map uminus (rev ys)) = sorted (ys :: int list)"
  by (induction ys) (auto simp: sorted_append)

lemma sort_map_uminus: "sort (map uminus xs) = map uminus (rev (sort (xs :: int list)))"
  by (rule properties_for_sort) (simp_all add: sorted_map_uminus_rev)

lemma sort_map_int: "sort (map int xs) = map int (sort xs)"
  by (rule properties_for_sort) (simp_all add: sorted_map_mono mono_onI)

lemma map_snd_sort_desc:
  "map snd (sort_key (\<lambda>kv. - int (snd kv)) (cs :: ('a \<times> nat) list)) = rev (sort (map snd cs))"
proof -
  let ?g = "\<lambda>kv :: 'a \<times> nat. - int (snd kv)"
  have "map snd (sort_key ?g cs) = map (\<lambda>i. nat (- i)) (map ?g (sort_key ?g cs))"
    by simp
  also have "map ?g (sort_key ?g cs) = sort (map uminus (map int (map snd cs)))"
    by (simp add: map_sort_key comp_def)
  also have "\<dots> = map uminus (rev (map int (sort (map snd cs))))"
    by (simp only: sort_map_uminus sort_map_int)
  finally show ?thesis by (simp add: rev_map comp_def)
qed

lemma mset_wallet_counts:
  assumes "mset xs = mset ys"
  shows "mset (map snd (wallet_trade_counts_of xs)) = mset (wallet_counts ys)"
proof -
  have tr: "trades_of k xs = trades_of k ys" for k
    unfolding trades_of_def using assms by (rule length_filter_mset_cong)
  have "set (map wallet xs) = set (map wallet ys)"
    using assms by (metis mset_eq_setD set_map)
  then have "mset (dict_fromkeys (map wallet xs)) = mset (remdups (map wallet ys))"
    by (metis distinct_dict_fromkeys distinct_remdups set_dict_fromkeys set_remdups
      set_eq_iff_mset_eq_distinct)
  then have "image_mset (\<lambda>k. trades_of k ys) (mset (dict_fromkeys (map wallet xs))) =
             image_mset (\<lambda>k. trades_of k ys) (mset (remdups (map wallet ys)))"
    by simp
  then show ?thesis
    by (simp add: wallet_trade_counts_eq wallet_counts_def comp_def tr)
qed

lemma top_cluster_counts:
  assumes "mset xs = mset ys"
  shows "map snd (top_cluster_of xs) = top3_counts ys"
proof -
  have "sort (map snd (wallet_trade_counts_of xs)) = sort (wallet_counts ys)"
    using mset_wallet_counts[OF assms] by (metis mset_sort properties_for_sort sorted_sort)
  then show ?thesis
    unfolding top_cluster_of_def top3_counts_def take_map[symmetric] map_snd_sort_desc
    by simp
qed

lemma wash_refines:
  assumes "txs \<noteq> []"
  shows "fst (wash_trading (sort_by_timestamp txs)) = (if wash_fires txs then 1 else 0)"
proof -
  let ?s = "sort_by_timestamp txs"
  have top: "map snd (top_cluster_of ?s) = top3_counts txs"
    by (rule top_cluster_counts) simp
  have fr: "wash_fraction_of ?s = of_nat (sum_list (top3_counts txs)) / of_nat (length txs)"
    using assms by (simp add: wash_fraction_of_def Let_def top)
  have al: "list_all (\<lambda>kv. snd kv \<ge> 2) (top_cluster_of ?s) \<longleftrightarrow> (\<forall>c \<in> set (top3_counts txs). c \<ge> 2)"
    unfolding top[symmetric] by (simp add: list_all_iff)
  show ?thesis
    by (simp add: wash_trading_def Let_def fr al wash_fires_def)
qed

text \<open>
  C7 (wash trading). For a non-empty trade list \<open>wash_trading_risk\<close> is 1 exactly when
  the three highest per-wallet trade counts add up to at least 0.6 of all trades and each
  of them is at least 2, and 0 otherwise; when it is 1 the modifier is 10 higher.
\<close>

theorem wash_trading_signal:
  assumes "transactions \<noteq> []"
  shows "fst (wash_trading (sort_by_timestamp (norm_tx_of transactions))) =
           (if wash_fires transactions then 1 else 0) \<and>
         modifier_of wallet_age_risk hvld_risk lp_risk
             (fst (wash_trading (sort_by_timestamp (norm_tx_of transactions)))) =
           modifier_of wallet_age_risk hvld_risk lp_risk 0 +
             (if wash_fires transactions then 10 else 0)"
  using wash_refines[OF assms] by (simp add: modifier_of_def)

theorem wash_trading_signal_witness:
  "wash_trades \<noteq> [] \<and> wash_fires wash_trades \<and>
   fst (wash_trading (sort_by_timestamp (norm_tx_of wash_trades))) = 1 \<and>
   modifier_of 0 0 0 (fst (wash_trading (sort_by_timestamp (norm_tx_of wash_trades)))) = 10"
proof -
  have ne: "wash_trades \<noteq> []" by (simp add: wash_trades_def)
  have f: "wash_fires wash_trades" by code_simp
  from wash_trading_signal[OF ne, of 0 0 0] ne f show ?thesis
    by (simp add: modifier_of_def)
qed

section \<open>Wallet age and the fresh-wallet surge\<close>

lemma Min_absorb_step:
  assumes "finite R" "R \<noteq> {}" "finite S"
  shows "Min (R \<union> {Min (insert (t::int) S)}) = Min (insert t R \<union> S)"
proof (cases "S = {}")
  case True
  with assms show ?thesis by (simp add: min.commute)
next
  case False
  have "Min (R \<union> {Min (insert t S)}) = min (Min R) (min t (Min S))"
    using assms False by (simp add: min.commute)
  also have "\<dots> = min (min t (Min R)) (Min S)"
    by (simp add: min.assoc min.left_commute)
  also have "\<dots> = Min (insert t R \<union> S)"
    using assms False by (simp add: Min_Un)
  finally show ?thesis .
qed

lemma first_tx_times_loop_eq:
  "first_tx_times_loop xs m w =
     (if filter (\<lambda>t. wallet t = w) xs = [] then m w
      else Some (Min (timestamp ` set (filter (\<lambda>t. wallet t = w) xs) \<union> set_option (m w))))"
proof (induction xs arbitrary: m)
  case Nil
  then show ?case by simp
next
  case (Cons t xs)
  let ?m' = "(case m (wallet t) of
          None \<Rightarrow> m(wallet t \<mapsto> timestamp t)
        | Some ts0 \<Rightarrow>
            if timestamp t < ts0 then m(wallet t \<mapsto> timestamp t)
            else m)"
  let ?R = "timestamp ` set (filter (\<lambda>t. wallet t = w) xs)"
  have step: "first_tx_times_loop (t # xs) m w = first_tx_times_loop xs ?m' w" by simp
  show ?case
  proof (cases "wallet t = w")
    case False
    then have "?m' w = m w" by (auto split: option.splits)
    with False show ?thesis unfolding step Cons.IH by simp
  next
    case True
    have m': "?m' w = Some (Min (insert (timestamp t) (set_option (m w))))"
      using True by (auto split: option.splits simp: min_def)
    show ?thesis
    proof (cases "filter (\<lambda>t. wallet t = w) xs = []")
      case True
      with \<open>wallet t = w\<close> show ?thesis unfolding step Cons.IH m' by simp
    next
      case False
      then have ne: "?R \<noteq> {}" by (auto simp: filter_empty_conv)
      have fin: "finite ?R" by simp
      have "first_tx_times_loop (t # xs) m w = Some (Min (?R \<union> {Min (insert (timestamp t) (set_option (m w)))}))"
        unfolding step Cons.IH m' using False by simp
      also have "\<dots> = Some (Min (insert (timestamp t) ?R \<union> set_option (m w)))"
        using Min_absorb_step[OF fin ne, of "set_option (m w)" "timestamp t"] by simp
      finally show ?thesis using \<open>wallet t = w\<close> by simp
    qed
  qed
qed

lemma first_tx_times_of_eq:
  "first_tx_times_of xs w =
     (if w \<in> wallet ` set xs then Some (first_seen xs w) else None)"
proof -
  have "filter (\<lambda>t. wallet t = w) xs = [] \<longleftrightarrow> w \<notin> wallet ` set xs"
    by (auto simp: filter_empty_conv)
  then show ?thesis
    by (auto simp: first_tx_times_of_def first_tx_times_loop_eq first_seen_def)
qed

lemma age_hours_24: "age_hours now f < new_wallet_threshold_hours \<longleftrightarrow> younger_than_24h now f"
proof -
  have "(of_int (now - f) :: rat) / 1000000 / 3600 < 24 \<longleftrightarrow> (of_int (now - f) :: rat) < of_int 86400000000"
    by (simp add: field_simps)
  also have "\<dots> \<longleftrightarrow> now - f < 86400000000"
    by (simp only: of_int_less_iff)
  finally show ?thesis
    by (simp add: age_hours_def new_wallet_threshold_hours_def younger_than_24h_def)
qed

lemma is_new_wallet_eq:
  "is_new_wallet now (first_tx_times_of xs) w \<longleftrightarrow>
     w \<in> wallet ` set xs \<and> younger_than_24h now (first_seen xs w)"
  by (simp add: is_new_wallet_def first_tx_times_of_eq age_hours_24)

lemma first_seen_cong: "set xs = set ys \<Longrightarrow> first_seen xs w = first_seen ys w"
  by (simp add: first_seen_def)

lemma first_occurrences_eq: "dict_fromkeys xs = first_occurrences xs"
  by (induction xs rule: rev_induct) (auto simp: dict_fromkeys_snoc first_occurrences_def)

lemma last50_eq: "last50 xs = rev (take 50 (rev xs))"
  by (simp add: last50_def rev_take)

lemma recent_unique_wallets_eq:
  "recent_unique_wallets_of (sort_by_timestamp txs) = recent_distinct_wallets txs"
  by (simp add: recent_unique_wallets_of_def recent_distinct_wallets_def first_occurrences_eq
      last50_eq sort_by_timestamp_def)

lemma recent_subset: "set (recent_distinct_wallets txs) \<subseteq> wallet ` set txs"
proof -
  have "set (rev (take 50 (rev (sort_key timestamp txs)))) \<subseteq> set txs"
    using set_take_subset[of 50 "rev (sort_key timestamp txs)"] by simp
  then show ?thesis
    by (auto simp: recent_distinct_wallets_def first_occurrences_def)
qed

lemma recent_new_count_eq:
  "recent_new_count_of now (sort_by_timestamp txs) =
     length (filter (\<lambda>w. younger_than_24h now (first_seen txs w)) (recent_distinct_wallets txs))"
proof -
  have "filter (is_new_wallet now (first_tx_times_of (sort_by_timestamp txs))) (recent_distinct_wallets txs)
      = filter (\<lambda>w. younger_than_24h now (first_seen txs w)) (recent_distinct_wallets txs)"
    using recent_subset[of txs]
    by (intro filter_cong refl) (auto simp: is_new_wallet_eq first_seen_cong[of "sort_by_timestamp txs" txs])
  then show ?thesis
    by (simp add: recent_new_count_of_def recent_unique_wallets_eq)
qed

lemma recent_ne:
  assumes "txs \<noteq> []"
  shows "recent_distinct_wallets txs \<noteq> []"
proof -
  from assms have "sort_key timestamp txs \<noteq> []" by (metis length_0_conv length_sort)
  then have "take 50 (rev (sort_key timestamp txs)) \<noteq> []" by simp
  then have "set (map wallet (rev (take 50 (rev (sort_key timestamp txs))))) \<noteq> {}" by simp
  then have "set (recent_distinct_wallets txs) \<noteq> {}"
    unfolding recent_distinct_wallets_def first_occurrences_def by simp
  then show ?thesis by auto
qed

lemma recent_fraction_eq:
  assumes "txs \<noteq> []"
  shows "recent_fraction_of now (sort_by_timestamp txs) = surge_fraction now txs"
proof -
  have "max (length (recent_distinct_wallets txs)) 1 = length (recent_distinct_wallets txs)"
    using recent_ne[OF assms] by (cases "recent_distinct_wallets txs") auto
  then show ?thesis
    by (simp add: recent_fraction_of_def surge_fraction_def recent_new_count_eq
        recent_unique_wallets_eq)
qed

lemma recent_fraction_le_1: "recent_fraction_of now xs \<le> 1"
proof -
  have "recent_new_count_of now xs \<le> length (recent_unique_wallets_of xs)"
    by (simp add: recent_new_count_of_def)
  then have "(of_nat (recent_new_count_of now xs) :: rat) \<le> of_nat (max (length (recent_unique_wallets_of xs)) 1)"
    by (simp only: of_nat_le_iff max_def split: if_splits) simp
  then show ?thesis
    by (simp add: recent_fraction_of_def divide_le_eq_1)
qed

lemma wallet_age_surge:
  assumes "wallet_age now xs = (war, rs)"
  shows "(1/2 < recent_fraction_of now xs \<and> 10 \<le> length (recent_unique_wallets_of xs) \<longrightarrow>
           (\<exists>a b c. FreshWalletSurge a b c \<in> set rs) \<and> recent_fraction_of now xs \<le> war)
         \<and> wallet_age_risk_initial now xs \<le> war"
proof (cases "1/2 < recent_fraction_of now xs \<and> 10 \<le> length (recent_unique_wallets_of xs)")
  case True
  then have "recent_unique_wallets_of xs \<noteq> []" by auto
  then have ne: "last50 xs \<noteq> []" by (auto simp: recent_unique_wallets_of_def)
  have i1: "wallet_age_risk_initial now xs \<le> 1" by (simp add: wallet_age_risk_initial_def)
  from assms True ne have
    war: "war = min 1 (max (wallet_age_risk_initial now xs) (recent_fraction_of now xs))"
    and rs: "FreshWalletSurge (recent_new_count_of now xs) (length (recent_unique_wallets_of xs))
               (recent_fraction_of now xs) \<in> set rs"
    by (auto simp: wallet_age_def Let_def)
  from war i1 recent_fraction_le_1[of now xs] have "recent_fraction_of now xs \<le> war"
    "wallet_age_risk_initial now xs \<le> war" by auto
  with rs True show ?thesis by blast
next
  case False
  with assms have "war = wallet_age_risk_initial now xs"
    by (auto simp: wallet_age_def Let_def split: if_splits)
  then show ?thesis using False by auto
qed

text \<open>
  C8 (fresh-wallet surge). For a non-empty trade list: when more than half of the
  distinct wallets of the last up to 50 trades (in time order, in order of first
  occurrence) were first seen less than 24 hours before the current instant, and there
  are at least 10 such distinct wallets, a surge reason is emitted and \<open>wallet_age_risk\<close>
  is at least that fraction; in every case \<open>wallet_age_risk\<close> is at least the value it
  had before the surge check.
\<close>

theorem fresh_wallet_surge:
  assumes "transactions \<noteq> []"
    and "wallet_age now_utc (sort_by_timestamp (norm_tx_of transactions)) = (wallet_age_risk, rs)"
  shows "(1/2 < surge_fraction now_utc transactions \<and>
          10 \<le> length (recent_distinct_wallets transactions) \<longrightarrow>
            (\<exists>a b c. FreshWalletSurge a b c \<in> set rs) \<and>
            surge_fraction now_utc transactions \<le> wallet_age_risk) \<and>
         wallet_age_risk_initial now_utc (sort_by_timestamp (norm_tx_of transactions))
           \<le> wallet_age_risk"
  using wallet_age_surge[OF assms(2)] assms(1)
  by (simp add: recent_fraction_eq recent_unique_wallets_eq)

theorem fresh_wallet_surge_witness:
  "burst_trades \<noteq> [] \<and>
   wallet_age 100000000000 (sort_by_timestamp (norm_tx_of burst_trades)) =
     (1, [NewWalletConcentration 10 10 1, FreshWalletSurge 10 10 1]) \<and>
   1/2 < surge_fraction 100000000000 burst_trades \<and>
   10 \<le> length (recent_distinct_wallets burst_trades) \<and>
   (\<exists>a b c. FreshWalletSurge a b c \<in> set [NewWalletConcentration 10 10 1, FreshWalletSurge 10 10 1]) \<and>
   surge_fraction 100000000000 burst_trades \<le> 1"
proof -
  have ne: "burst_trades \<noteq> []" by (simp add: burst_trades_def)
  have w: "wallet_age 100000000000 (sort_by_timestamp (norm_tx_of burst_trades)) =
             (1, [NewWalletConcentration 10 10 1, FreshWalletSurge 10 10 1])"
    by code_simp
  have f: "1/2 < surge_fraction 100000000000 burst_trades" by code_simp
  have n: "10 \<le> length (recent_distinct_wallets burst_trades)" by code_simp
  from fresh_wallet_surge[OF ne w] ne w f n show ?thesis by simp
qed

section \<open>Permuting the input\<close>

lemma new_wallet_count_eq:
  "new_wallet_count_of now xs =
     card {w \<in> wallet ` set xs. younger_than_24h now (first_seen xs w)}"
proof -
  have "Set.filter (is_new_wallet now (first_tx_times_of xs)) (set (map wallet xs)) =
        {w \<in> wallet ` set xs. younger_than_24h now (first_seen xs w)}"
    by (auto simp: is_new_wallet_eq)
  then show ?thesis by (simp add: new_wallet_count_of_def)
qed

lemma new_wallet_count_cong:
  assumes "set xs = set ys"
  shows "new_wallet_count_of now xs = new_wallet_count_of now ys"
  unfolding new_wallet_count_eq using assms first_seen_cong[OF assms] by simp

lemma wallet_age_risk_initial_cong:
  assumes "set xs = set ys"
  shows "wallet_age_risk_initial now xs = wallet_age_risk_initial now ys"
  using assms new_wallet_count_cong[OF assms, of now]
  by (simp add: wallet_age_risk_initial_def new_wallet_fraction_of_def)

lemma hvld_fires_mset:
  assumes "mset xs = mset ys"
  shows "hvld_fires xs = hvld_fires ys"
proof -
  have s: "set xs = set ys" using assms by (rule mset_eq_setD)
  then have l: "latest_timestamp xs = latest_timestamp ys" by (simp add: latest_timestamp_def)
  have "length (trailing_window xs) = length (trailing_window ys)"
    unfolding trailing_window_def l using assms by (rule length_filter_mset_cong)
  moreover have "set (trailing_window xs) = set (trailing_window ys)"
    by (simp add: trailing_window_def l s)
  ultimately show ?thesis by (simp add: hvld_fires_def)
qed

lemma wash_fires_mset:
  assumes "mset xs = mset ys"
  shows "wash_fires xs = wash_fires ys"
proof -
  have "top3_counts xs = map snd (top_cluster_of xs)"
    by (rule top_cluster_counts[symmetric]) simp
  also have "\<dots> = top3_counts ys" using assms by (rule top_cluster_counts)
  finally show ?thesis using mset_eq_length[OF assms] by (simp add: wash_fires_def)
qed

lemma clustered_fraction_mset:
  "mset xs = mset ys \<Longrightarrow> clustered_fraction xs = clustered_fraction ys"
  using max_in_span_mset[of xs ys] mset_eq_length[of xs ys]
  by (simp add: clustered_fraction_def)

lemma sorted_timestamps_eq:
  "map timestamp (sort_by_timestamp txs) = sort (map timestamp txs)"
  by (simp add: sort_by_timestamp_def map_sort_key)

lemma sort_mset_cong: "mset xs = mset ys \<Longrightarrow> sort xs = sort ys"
  by (rule properties_for_sort) simp_all

lemma tie_across_cut_mset:
  assumes "mset xs = mset ys"
  shows "tie_across_cut xs = tie_across_cut ys"
proof -
  have "mset (map timestamp xs) = mset (map timestamp ys)" using assms by (metis mset_map)
  then have "sort (map timestamp xs) = sort (map timestamp ys)" by (rule sort_mset_cong)
  then show ?thesis using mset_eq_length[OF assms] by (simp add: tie_across_cut_def)
qed

text \<open>Without a tie across the cut, the slice holds exactly the trades from the cut's
  timestamp on.\<close>

lemma last50_filter:
  assumes srt: "sorted (map timestamp s)" and long: "50 < length s"
    and lt: "timestamp (s ! (length s - 51)) < timestamp (s ! (length s - 50))"
  shows "last50 s = filter (\<lambda>t. timestamp (s ! (length s - 50)) \<le> timestamp t) s"
proof -
  define k where "k = length s - 50"
  define j where "j = length s - 51"
  have kl: "k < length s" and jk: "j < k" and jl: "j < length s"
    using long unfolding k_def j_def by arith+
  have ltc: "timestamp (s ! j) < timestamp (s ! k)"
    using lt unfolding k_def j_def .
  let ?P = "\<lambda>t. timestamp (s ! k) \<le> timestamp t"
  have a: "filter ?P (take k s) = []"
  proof -
    have "\<not> ?P t" if "t \<in> set (take k s)" for t
    proof -
      from that obtain i where i: "i < k" "t = s ! i"
        using kl by (auto simp: in_set_conv_nth)
      from i(1) have "i \<le> j" using long unfolding k_def j_def by arith
      then have "map timestamp s ! i \<le> map timestamp s ! j"
        using jl by (intro sorted_nth_mono[OF srt]) simp_all
      then have "timestamp (s ! i) \<le> timestamp (s ! j)"
        using jl \<open>i \<le> j\<close> by simp
      with ltc i(2) show ?thesis by simp
    qed
    then show ?thesis by (simp add: filter_empty_conv)
  qed
  have b: "filter ?P (drop k s) = drop k s"
  proof -
    have "?P t" if "t \<in> set (drop k s)" for t
    proof -
      from that obtain i where i: "i < length (drop k s)" "t = drop k s ! i"
        by (auto simp: in_set_conv_nth)
      then have t: "t = s ! (k + i)" and il: "k + i < length s" using kl by auto
      have "map timestamp s ! k \<le> map timestamp s ! (k + i)"
        using il by (intro sorted_nth_mono[OF srt]) simp_all
      then have "timestamp (s ! k) \<le> timestamp (s ! (k + i))"
        using il kl by simp
      with t show ?thesis by simp
    qed
    then show ?thesis by (simp add: filter_id_conv)
  qed
  have "filter ?P s = filter ?P (take k s) @ filter ?P (drop k s)"
    by (metis append_take_drop_id filter_append)
  then have "filter ?P s = drop k s" by (simp only: a b append_Nil)
  then show ?thesis unfolding last50_def k_def by simp
qed

lemma last50_wallets_perm:
  assumes m: "mset txs = mset txs'" and nt: "\<not> tie_across_cut txs"
  shows "set (map wallet (last50 (sort_by_timestamp txs))) =
         set (map wallet (last50 (sort_by_timestamp txs')))"
proof (cases "length txs \<le> 50")
  case True
  then have "length txs' \<le> 50" using mset_eq_length[OF m] by simp
  with True have "last50 (sort_by_timestamp txs) = sort_by_timestamp txs"
    "last50 (sort_by_timestamp txs') = sort_by_timestamp txs'"
    by (simp_all add: last50_def)
  then show ?thesis using mset_eq_setD[OF m] by simp
next
  case False
  let ?s = "sort_by_timestamp txs" and ?s' = "sort_by_timestamp txs'"
  have n: "length txs = length txs'" using m by (rule mset_eq_length)
  have long: "50 < length ?s" "50 < length ?s'" using False n by simp_all
  have "mset (map timestamp txs) = mset (map timestamp txs')" using m by (metis mset_map)
  then have tse: "map timestamp ?s = map timestamp ?s'"
    unfolding sorted_timestamps_eq by (rule sort_mset_cong)
  have nth: "timestamp (?s ! i) = timestamp (?s' ! i)" if "i < length txs" for i
  proof -
    have "timestamp (?s ! i) = map timestamp ?s ! i" using that by simp
    also have "\<dots> = map timestamp ?s' ! i" by (simp only: tse)
    also have "\<dots> = timestamp (?s' ! i)" using that n by simp
    finally show ?thesis .
  qed
  have ne: "sort (map timestamp txs) ! (length txs - 51) \<noteq>
            sort (map timestamp txs) ! (length txs - 50)"
    using nt False by (simp add: tie_across_cut_def Let_def)
  have i1: "length txs - 51 < length txs" and i2: "length txs - 50 < length txs"
    using False by simp_all
  have ne': "timestamp (?s ! (length txs - 51)) \<noteq> timestamp (?s ! (length txs - 50))"
  proof -
    have "sort (map timestamp txs) ! i = timestamp (?s ! i)" if "i < length txs" for i
      using that unfolding sorted_timestamps_eq[symmetric] by simp
    with ne i1 i2 show ?thesis by simp
  qed
  have "timestamp (?s ! (length txs - 51)) \<le> timestamp (?s ! (length txs - 50))"
    using sorted_nth_mono[OF sorted_sort_by_timestamp, of "length txs - 51" "length txs - 50" txs] i2
    by simp
  with ne' have lt: "timestamp (?s ! (length ?s - 51)) < timestamp (?s ! (length ?s - 50))"
    by simp
  then have lt': "timestamp (?s' ! (length ?s' - 51)) < timestamp (?s' ! (length ?s' - 50))"
    using nth[OF i1] nth[OF i2] n by simp
  let ?c = "timestamp (?s ! (length txs - 50))"
  have f: "last50 ?s = filter (\<lambda>t. ?c \<le> timestamp t) ?s"
    using last50_filter[OF sorted_sort_by_timestamp long(1) lt] by simp
  have f': "last50 ?s' = filter (\<lambda>t. ?c \<le> timestamp t) ?s'"
    using last50_filter[OF sorted_sort_by_timestamp long(2) lt'] nth[OF i2] n by simp
  have "set (last50 ?s) = set (last50 ?s')"
    unfolding f f' using mset_eq_setD[OF m] by simp
  then show ?thesis by simp
qed

lemma wallet_age_cong:
  assumes s: "set xs = set ys"
    and w: "set (map wallet (last50 xs)) = set (map wallet (last50 ys))"
  shows "fst (wallet_age now xs) = fst (wallet_age now ys)"
proof -
  let ?P = "\<lambda>zs. is_new_wallet now (first_tx_times_of zs)"
  have P: "?P xs = ?P ys"
    using s first_seen_cong[OF s] by (auto simp: is_new_wallet_eq fun_eq_iff)
  have len: "length (recent_unique_wallets_of zs) = card (set (map wallet (last50 zs)))" for zs
  proof -
    have "length (dict_fromkeys (map wallet (last50 zs))) =
          card (set (dict_fromkeys (map wallet (last50 zs))))"
      by (rule distinct_card[symmetric]) simp
    then show ?thesis by (simp add: recent_unique_wallets_of_def)
  qed
  have cnt: "recent_new_count_of now zs =
               card ({w. ?P zs w} \<inter> set (map wallet (last50 zs)))" for zs
  proof -
    have "length (filter (?P zs) (dict_fromkeys (map wallet (last50 zs)))) =
          card ({w. ?P zs w} \<inter> set (dict_fromkeys (map wallet (last50 zs))))"
      by (rule distinct_length_filter) simp
    then show ?thesis by (simp add: recent_new_count_of_def recent_unique_wallets_of_def)
  qed
  have l: "length (recent_unique_wallets_of xs) = length (recent_unique_wallets_of ys)"
    unfolding len w ..
  have c: "recent_new_count_of now xs = recent_new_count_of now ys"
    unfolding cnt w P ..
  have r: "recent_fraction_of now xs = recent_fraction_of now ys"
    by (simp only: recent_fraction_of_def l c)
  have i: "wallet_age_risk_initial now xs = wallet_age_risk_initial now ys"
    using s by (rule wallet_age_risk_initial_cong)
  have e: "(map wallet (last50 xs) = []) = (map wallet (last50 ys) = [])"
    using w by (metis set_empty)
  show ?thesis
    unfolding wallet_age_def Let_def l r i e by (simp split: if_splits)
qed

lemma trade_signals_form:
  assumes "txs \<noteq> []"
  shows "\<exists>rs. trade_signals now (sort_by_timestamp txs) =
           Inr (sequential_risk_of (clustered_fraction txs),
                fst (wallet_age now (sort_by_timestamp txs)),
                if hvld_fires txs then 1 else 0, rs)"
proof -
  let ?s = "sort_by_timestamp txs"
  obtain rs1 where tc: "temporal_clustering ?s = Inr (sequential_risk_of (clustered_fraction txs), rs1)"
    using temporal_clustering_refines[OF assms] by blast
  obtain a rs2 where wa': "wallet_age now ?s = (a, rs2)" by (cases "wallet_age now ?s") auto
  obtain h rs3 where hv': "high_volume_low_diversity ?s = (h, rs3)"
    by (cases "high_volume_low_diversity ?s") auto
  from hvld_refines[OF assms] hv' have h: "h = (if hvld_fires txs then 1 else 0)" by simp
  show ?thesis
    by (simp add: trade_signals_def tc wa' hv' h)
qed

lemma score_permutation_untied:
  assumes m: "mset txs = mset txs'" and nt: "\<not> tie_across_cut txs"
  shows "\<exists>r r'. analyze_wallet_clustering w txs tok = Inr r \<and>
                analyze_wallet_clustering w txs' tok = Inr r' \<and>
                manipulation_score r = manipulation_score r'"
proof (cases "txs = []")
  case True
  with m have "txs' = []" by simp
  with True show ?thesis
    using analyze_wallet_clustering_result[of "[]" w tok] by auto
next
  case False
  with m have ne': "txs' \<noteq> []" by auto
  have st: "set (sort_by_timestamp txs) = set (sort_by_timestamp txs')"
    using mset_eq_setD[OF m] by simp
  have n: "length txs = length txs'" using m by (rule mset_eq_length)
  obtain rs where ts: "trade_signals (utcnow w) (sort_by_timestamp txs) =
           Inr (sequential_risk_of (clustered_fraction txs),
                fst (wallet_age (utcnow w) (sort_by_timestamp txs)),
                if hvld_fires txs then 1 else 0, rs)"
    using trade_signals_form[OF False] by blast
  obtain rs' where ts': "trade_signals (utcnow w) (sort_by_timestamp txs') =
           Inr (sequential_risk_of (clustered_fraction txs'),
                fst (wallet_age (utcnow w) (sort_by_timestamp txs')),
                if hvld_fires txs' then 1 else 0, rs')"
    using trade_signals_form[OF ne'] by blast
  obtain fr mi t10 lp rs2 where tc: "token_checks w tok = (fr, mi, t10, lp, rs2)"
    by (cases "token_checks w tok") auto
  obtain wt rs3 where wt: "wash_trading (sort_by_timestamp txs) = (wt, rs3)"
    by (cases "wash_trading (sort_by_timestamp txs)") auto
  obtain wt' rs3' where wt': "wash_trading (sort_by_timestamp txs') = (wt', rs3')"
    by (cases "wash_trading (sort_by_timestamp txs')") auto
  from wash_refines[OF False] wt have w1: "wt = (if wash_fires txs then 1 else 0)" by simp
  from wash_refines[OF ne'] wt' have w2: "wt' = (if wash_fires txs' then 1 else 0)" by simp
  have wa: "fst (wallet_age (utcnow w) (sort_by_timestamp txs)) =
            fst (wallet_age (utcnow w) (sort_by_timestamp txs'))"
    using st last50_wallets_perm[OF m nt] by (rule wallet_age_cong)
  have eqs: "clustered_fraction txs = clustered_fraction txs'"
    "hvld_fires txs = hvld_fires txs'" "wt = wt'"
    using clustered_fraction_mset[OF m] hvld_fires_mset[OF m] wash_fires_mset[OF m] w1 w2
    by simp_all
  have r: "analyze_wallet_clustering w txs tok =
      Inr (aggregate (length txs) (sequential_risk_of (clustered_fraction txs),
                fst (wallet_age (utcnow w) (sort_by_timestamp txs)),
                if hvld_fires txs then 1 else 0, rs) (fr, mi, t10, lp, rs2) (wt, rs3))"
    using False by (simp add: analyze_wallet_clustering_def Let_def ts tc wt)
  have r': "analyze_wallet_clustering w txs' tok =
      Inr (aggregate (length txs') (sequential_risk_of (clustered_fraction txs'),
                fst (wallet_age (utcnow w) (sort_by_timestamp txs')),
                if hvld_fires txs' then 1 else 0, rs') (fr, mi, t10, lp, rs2) (wt', rs3'))"
    using ne' by (simp add: analyze_wallet_clustering_def Let_def ts' tc wt')
  show ?thesis unfolding r r' by (simp add: eqs n wa)
qed

text \<open>
  C5 as stated fails. The slice \<open>norm_tx[-50:]\<close> of the stably sorted list drops, of two
  trades tied at the earliest timestamp, the one that came first in the input; with 51
  trades the distinct recent wallets are 11 for one order and 12 for the other, and
  the scores are 100/11 and 25/3.
\<close>

theorem score_permutation_counterexample:
  "mset tied_ab = mset tied_ba \<and> tie_across_cut tied_ab \<and>
   analyze_wallet_clustering quiet_world tied_ab None =
     Inr \<lparr>manipulation_score = 100 / 11,
          reasons = [NewWalletConcentration 10 12 (5 / 6), FreshWalletSurge 10 11 (10 / 11)],
          freeze_present = False, mint_present = False, top_10_share = 0\<rparr> \<and>
   analyze_wallet_clustering quiet_world tied_ba None =
     Inr \<lparr>manipulation_score = 25 / 3,
          reasons = [NewWalletConcentration 10 12 (5 / 6), FreshWalletSurge 10 12 (5 / 6)],
          freeze_present = False, mint_present = False, top_10_share = 0\<rparr>"
proof -
  have m: "mset tied_ab = mset tied_ba"
    by (simp add: tied_ab_def tied_ba_def)
  have t: "tie_across_cut tied_ab" by code_simp
  have ab: "analyze_wallet_clustering quiet_world tied_ab None =
     Inr \<lparr>manipulation_score = 100 / 11,
          reasons = [NewWalletConcentration 10 12 (5 / 6), FreshWalletSurge 10 11 (10 / 11)],
          freeze_present = False, mint_present = False, top_10_share = 0\<rparr>"
    by code_simp
  have ba: "analyze_wallet_clustering quiet_world tied_ba None =
     Inr \<lparr>manipulation_score = 25 / 3,
          reasons = [NewWalletConcentration 10 12 (5 / 6), FreshWalletSurge 10 12 (5 / 6)],
          freeze_present = False, mint_present = False, top_10_share = 0\<rparr>"
    by code_simp
  from m t ab ba show ?thesis by (intro conjI)
qed

text \<open>
  C5, amended. Unless the list has more than 50 trades and the trades at the positions
  51 and 50 from the end of the time order share a timestamp (a tie across the cut of
  \<open>norm_tx[-50:]\<close>), every permutation of the list yields the same \<open>manipulation_score\<close>,
  for the same world and token address. Ties anywhere else do not matter.
\<close>

theorem score_permutation_invariant:
  assumes "mset transactions = mset transactions'"
    and "\<not> tie_across_cut transactions"
  shows "\<exists>r r'. analyze_wallet_clustering w transactions token_address = Inr r \<and>
                analyze_wallet_clustering w transactions' token_address = Inr r' \<and>
                manipulation_score r = manipulation_score r'"
  using assms by (rule score_permutation_untied)

theorem score_permutation_invariant_witness:
  "mset late_tie_xy = mset late_tie_yx \<and> \<not> tie_across_cut late_tie_xy \<and>
   length late_tie_xy = 52 \<and> \<not> distinct (map timestamp late_tie_xy) \<and>
   (\<exists>r r'. analyze_wallet_clustering quiet_world late_tie_xy None = Inr r \<and>
           analyze_wallet_clustering quiet_world late_tie_yx None = Inr r' \<and>
           manipulation_score r = manipulation_score r' \<and> manipulation_score r = 10)"
proof -
  have m: "mset late_tie_xy = mset late_tie_yx"
    by (simp add: late_tie_xy_def late_tie_yx_def)
  have nt: "\<not> tie_across_cut late_tie_xy" by code_simp
  have l: "length late_tie_xy = 52" by code_simp
  have d: "\<not> distinct (map timestamp late_tie_xy)" by code_simp
  have v: "analyze_wallet_clustering quiet_world late_tie_xy None =
     Inr \<lparr>manipulation_score = 10,
          reasons = [NewWalletConcentration 13 14 (13 / 14), FreshWalletSurge 13 13 1],
          freeze_present = False, mint_present = False, top_10_share = 0\<rparr>"
    by code_simp
  from score_permutation_invariant[OF m nt, of quiet_world None]
  obtain r r' where r: "analyze_wallet_clustering quiet_world late_tie_xy None = Inr r"
    "analyze_wallet_clustering quiet_world late_tie_yx None = Inr r'"
    "manipulation_score r = manipulation_score r'"
    by (elim exE conjE)
  from r(1) v have "r = \<lparr>manipulation_score = 10,
          reasons = [NewWalletConcentration 13 14 (13 / 14), FreshWalletSurge 13 13 1],
          freeze_present = False, mint_present = False, top_10_share = 0\<rparr>"
    by simp
  then have "manipulation_score r = 10" by simp
  with m nt l d r show ?thesis by blast
qed

section \<open>What the result depends on\<close>

text \<open>
  The current instant and the token facts are no parameters of
  \<open>analyze_wallet_clustering\<close>: the function reads the wall clock and calls the look-ups
  itself. In the model they arrive through the \<open>world\<close>; the function consults the clock
  only when there is a trade and the look-ups only for the given token address.
\<close>

lemma token_checks_cong:
  assumes "\<forall>addr. tok = Some addr \<longrightarrow>
             simulate_token_authorities w addr = simulate_token_authorities w' addr \<and>
             get_top_holders_onchain w addr = get_top_holders_onchain w' addr \<and>
             simulate_lp_stability w addr = simulate_lp_stability w' addr"
  shows "token_checks w tok = token_checks w' tok"
  using assms by (cases tok) (simp_all add: token_checks_def)

lemma analyze_world_cong:
  assumes "transactions = [] \<or> utcnow w = utcnow w'"
    and "token_checks w tok = token_checks w' tok"
  shows "analyze_wallet_clustering w transactions tok =
         analyze_wallet_clustering w' transactions tok"
proof (cases "transactions = []")
  case True
  then show ?thesis by (simp add: analyze_wallet_clustering_def assms(2))
next
  case False
  with assms(1) have "utcnow w = utcnow w'" by simp
  then show ?thesis
    by (simp add: analyze_wallet_clustering_def Let_def assms(2) split: sum.splits)
qed

text \<open>
  The same trades and the same (absent) token address in two worlds that differ in
  nothing but the clock: the score is 0 in one and 10 in the other.
\<close>

lemma result_depends_on_clock:
  "early_world = quiet_world\<lparr>utcnow := 1000000000\<rparr> \<and>
   analyze_wallet_clustering quiet_world spread_trades None =
     Inr \<lparr>manipulation_score = 0, reasons = [no_risk_detected],
          freeze_present = False, mint_present = False, top_10_share = 0\<rparr> \<and>
   analyze_wallet_clustering early_world spread_trades None =
     Inr \<lparr>manipulation_score = 10, reasons = [NewWalletConcentration 5 5 1],
          freeze_present = False, mint_present = False, top_10_share = 0\<rparr>"
proof -
  have q: "analyze_wallet_clustering quiet_world spread_trades None =
     Inr \<lparr>manipulation_score = 0, reasons = [no_risk_detected],
          freeze_present = False, mint_present = False, top_10_share = 0\<rparr>"
    by code_simp
  have e: "analyze_wallet_clustering early_world spread_trades None =
     Inr \<lparr>manipulation_score = 10, reasons = [NewWalletConcentration 5 5 1],
          freeze_present = False, mint_present = False, top_10_share = 0\<rparr>"
    by code_simp
  from q e show ?thesis by (simp add: early_world_def)
qed

section \<open>The call leaves the caller's objects alone\<close>

lemma read_event_dom: "read_event h r = Some t \<Longrightarrow> r \<in> dom (cells h)"
  by (auto simp: read_event_def split: option.splits pyobj.splits)

lemma read_list_dom: "read_list h a = Some refs \<Longrightarrow> a \<in> dom (cells h)"
  by (auto simp: read_list_def split: option.splits pyobj.splits)

lemma read_event_cong: "cells h' r = cells h r \<Longrightarrow> read_event h' r = read_event h r"
  by (simp add: read_event_def)

lemma read_list_cong: "cells h' a = cells h a \<Longrightarrow> read_list h' a = read_list h a"
  by (simp add: read_list_def)

lemma read_all_cong:
  "(\<And>r. r \<in> set rs \<Longrightarrow> cells h' r = cells h r) \<Longrightarrow> read_all h' rs = read_all h rs"
proof (induction rs)
  case Nil
  show ?case by simp
next
  case (Cons r rs)
  have "read_event h' r = read_event h r"
    by (rule read_event_cong) (simp add: Cons.prems)
  moreover have "read_all h' rs = read_all h rs"
    by (rule Cons.IH) (simp add: Cons.prems)
  ultimately show ?case by (simp only: read_all.simps)
qed

lemma read_all_Some:
  "read_all h rs = Some evs \<Longrightarrow>
     length evs = length rs \<and> (\<forall>r \<in> set rs. r \<in> dom (cells h)) \<and>
     (\<forall>p \<in> set (zip rs evs). read_event h (fst p) = Some (snd p))"
proof (induction rs arbitrary: evs)
  case Nil
  then show ?case by simp
next
  case (Cons r rs)
  from Cons.prems obtain t ts where t: "read_event h r = Some t" "read_all h rs = Some ts"
    "evs = t # ts"
    by (auto split: option.splits)
  from Cons.IH[OF t(2)] t(1) t(3) show ?case
    by (auto dest: read_event_dom)
qed

lemma read_all_append:
  "read_all h rs = Some evs \<Longrightarrow> read_all h rs' = Some evs' \<Longrightarrow>
     read_all h (rs @ rs') = Some (evs @ evs')"
  by (induction rs arbitrary: evs) (auto split: option.splits)

lemma read_all_pairs:
  "(\<And>p. p \<in> set ps \<Longrightarrow> read_event h (fst p) = Some (snd p)) \<Longrightarrow>
     read_all h (map fst ps) = Some (map snd ps)"
  by (induction ps) simp_all

lemma alloc_simps [simp]:
  "fst (alloc v h) = next_free h"
  "cells (snd (alloc v h)) = (cells h)(next_free h \<mapsto> v)"
  "next_free (snd (alloc v h)) = next_free h + 1"
  by (simp_all add: alloc_def)

text \<open>
  The loop writes only to the list \<open>l\<close> and to cells it allocates: every cell below
  \<open>n0\<close> keeps its content, and afterwards \<open>l\<close> holds the copies of the events in order.
\<close>

lemma normalize_step:
  assumes ok: "heap_ok h" and ll: "l < next_free h"
    and rl: "read_list h l = Some acc"
    and h2: "h2 = \<lparr>cells = (cells h)(next_free h \<mapsto> Event e, l \<mapsto> EventList (acc @ [next_free h])),
                    next_free = next_free h + 1\<rparr>"
  shows "heap_ok h2"
    and "\<And>b. b \<noteq> l \<Longrightarrow> b \<noteq> next_free h \<Longrightarrow> cells h2 b = cells h b"
    and "read_list h2 l = Some (acc @ [next_free h])"
    and "read_event h2 (next_free h) = Some e"
    and "next_free h2 = next_free h + 1"
proof -
  have c2: "cells h2 = (cells h)(next_free h \<mapsto> Event e, l \<mapsto> EventList (acc @ [next_free h]))"
    and n2: "next_free h2 = next_free h + 1"
    by (simp_all add: h2)
  show "next_free h2 = next_free h + 1" by (rule n2)
  show "heap_ok h2"
    unfolding heap_ok_def
  proof
    fix b assume "b \<in> dom (cells h2)"
    then consider "b = l" | "b = next_free h" | "b \<in> dom (cells h)"
      unfolding c2 by (auto split: if_splits)
    then show "b < next_free h2"
    proof cases
      case 1
      with ll show ?thesis unfolding n2 by simp
    next
      case 2
      then show ?thesis unfolding n2 by simp
    next
      case 3
      with ok have "b < next_free h" unfolding heap_ok_def by blast
      then show ?thesis unfolding n2 by simp
    qed
  qed
  show "cells h2 b = cells h b" if "b \<noteq> l" "b \<noteq> next_free h" for b
    unfolding c2 using that by simp
  show "read_list h2 l = Some (acc @ [next_free h])"
    unfolding read_list_def c2 by simp
  from ll have "next_free h \<noteq> l" by simp
  then show "read_event h2 (next_free h) = Some e"
    unfolding read_event_def c2 by simp
qed

lemma normalize_loop_Cons:
  assumes "read_event h r = Some t" and "read_list h l = Some acc" and "l < next_free h"
  shows "normalize_loop (r # rest) l h =
           normalize_loop rest l
             \<lparr>cells = (cells h)(next_free h \<mapsto> Event (normalize_tx t),
                                 l \<mapsto> EventList (acc @ [next_free h])),
              next_free = next_free h + 1\<rparr>"
proof -
  let ?h1 = "h\<lparr>cells := (cells h)(next_free h \<mapsto> Event (normalize_tx t)),
                next_free := next_free h + 1\<rparr>"
  have al: "alloc (Event (normalize_tx t)) h = (next_free h, ?h1)"
    by (simp only: alloc_def)
  from assms(3) have "l \<noteq> next_free h" by simp
  then have rl1: "read_list ?h1 l = Some acc"
    using assms(2) by (simp add: read_list_def)
  have ap: "list_append l (next_free h) ?h1 =
              Some \<lparr>cells = (cells h)(next_free h \<mapsto> Event (normalize_tx t),
                                 l \<mapsto> EventList (acc @ [next_free h])),
              next_free = next_free h + 1\<rparr>"
    unfolding list_append_def rl1 by simp
  show ?thesis
    by (simp only: normalize_loop.simps assms(1) al ap option.simps prod.case)
qed

text \<open>
  The loop writes only to the list \<open>l\<close> and to cells it allocates: every cell that
  existed before keeps its content, and afterwards \<open>l\<close> holds the copies of the events in
  order.
\<close>

lemma normalize_loop_frame:
  assumes "heap_ok h" "l < next_free h"
    and "read_list h l = Some acc" "read_all h acc = Some accv"
    and "\<forall>d \<in> set acc. d \<noteq> l \<and> d < next_free h"
    and "read_all h refs = Some evs" "l \<notin> set refs"
  shows "\<exists>h' acc'. normalize_loop refs l h = Some h' \<and> heap_ok h' \<and>
           (\<forall>b. b \<noteq> l \<and> b \<in> dom (cells h) \<longrightarrow> cells h' b = cells h b) \<and>
           read_list h' l = Some acc' \<and>
           read_all h' acc' = Some (accv @ map normalize_tx evs) \<and>
           (\<forall>d \<in> set acc'. d \<noteq> l)"
  using assms
proof (induction refs arbitrary: h acc accv evs)
  case Nil
  then have "evs = []" by simp
  with Nil show ?case by (intro exI[of _ h] exI[of _ acc]) simp
next
  case (Cons r rest)
  from Cons.prems(6) obtain t ts where t: "read_event h r = Some t" "read_all h rest = Some ts"
    "evs = t # ts"
    by (auto split: option.splits)
  define h2 where "h2 = \<lparr>cells = (cells h)(next_free h \<mapsto> Event (normalize_tx t),
                                 l \<mapsto> EventList (acc @ [next_free h])),
              next_free = next_free h + 1\<rparr>"
  note st = normalize_step[OF Cons.prems(1) Cons.prems(2) Cons.prems(3) h2_def]
  have step: "normalize_loop (r # rest) l h = normalize_loop rest l h2"
    unfolding h2_def by (rule normalize_loop_Cons[OF t(1) Cons.prems(3) Cons.prems(2)])
  have indom: "b \<noteq> next_free h" if "b \<in> dom (cells h)" for b
    using that Cons.prems(1) unfolding heap_ok_def by auto
  have acc_old: "cells h2 d = cells h d" if "d \<in> set acc" for d
    using that Cons.prems(5) by (intro st(2)) auto
  have "read_all h2 acc = read_all h acc"
    by (rule read_all_cong) (rule acc_old)
  then have a1: "read_all h2 acc = Some accv" using Cons.prems(4) by simp
  have a2: "read_all h2 [next_free h] = Some [normalize_tx t]"
    by (simp add: st(4))
  have ra2: "read_all h2 (acc @ [next_free h]) = Some (accv @ [normalize_tx t])"
    using a1 a2 by (rule read_all_append)
  have fresh2: "\<forall>d \<in> set (acc @ [next_free h]). d \<noteq> l \<and> d < next_free h2"
    using Cons.prems(5) Cons.prems(2) unfolding st(5) by auto
  have rest_dom: "r' \<in> dom (cells h)" if "r' \<in> set rest" for r'
    using read_all_Some[OF t(2)] that by blast
  have rest_old: "cells h2 r' = cells h r'" if "r' \<in> set rest" for r'
  proof (rule st(2))
    from that Cons.prems(7) show "r' \<noteq> l" by auto
    from rest_dom[OF that] show "r' \<noteq> next_free h" by (rule indom)
  qed
  have "read_all h2 rest = read_all h rest"
    by (rule read_all_cong) (rule rest_old)
  then have rest2: "read_all h2 rest = Some ts" using t(2) by simp
  have l2: "l < next_free h2" using Cons.prems(2) unfolding st(5) by simp
  have nl: "l \<notin> set rest" using Cons.prems(7) by simp
  from Cons.IH[OF st(1) l2 st(3) ra2 fresh2 rest2 nl]
  obtain h' acc' where h': "normalize_loop rest l h2 = Some h'" "heap_ok h'"
    "\<forall>b. b \<noteq> l \<and> b \<in> dom (cells h2) \<longrightarrow> cells h' b = cells h2 b"
    "read_list h' l = Some acc'"
    "read_all h' acc' = Some ((accv @ [normalize_tx t]) @ map normalize_tx ts)"
    "\<forall>d \<in> set acc'. d \<noteq> l"
    by (elim exE conjE)
  have f2: "\<forall>b. b \<noteq> l \<and> b \<in> dom (cells h) \<longrightarrow> cells h' b = cells h b"
  proof (intro allI impI)
    fix b assume b: "b \<noteq> l \<and> b \<in> dom (cells h)"
    then have nb: "b \<noteq> next_free h" using indom by blast
    from b nb have e: "cells h2 b = cells h b" by (intro st(2)) auto
    with b have "b \<in> dom (cells h2)" by (auto simp: dom_def)
    with h'(3) b have "cells h' b = cells h2 b" by blast
    with e show "cells h' b = cells h b" by simp
  qed
  have r5: "read_all h' acc' = Some (accv @ map normalize_tx evs)"
    using h'(5) unfolding t(3) by simp
  show ?case
    unfolding step using h'(1) h'(2) f2 h'(4) r5 h'(6) by blast
qed

lemma map_snd_insort_key:
  "map snd (insort_key (\<lambda>p. f (snd p)) p ps) = insort_key f (snd p) (map snd ps)"
  by (induction ps) auto

lemma map_snd_sort_key:
  "map snd (sort_key (\<lambda>p. f (snd p)) ps) = sort_key f (map snd ps)"
  by (induction ps) (auto simp: map_snd_insort_key)

lemma list_sort_frame:
  assumes "read_list h l = Some refs" "read_all h refs = Some evs" "\<forall>d \<in> set refs. d \<noteq> l"
  shows "\<exists>h'. list_sort l h = Some h' \<and> (\<forall>b. b \<noteq> l \<longrightarrow> cells h' b = cells h b) \<and>
           read_events h' l = Some (sort_key timestamp evs)"
proof -
  let ?ps = "sort_key (\<lambda>p. timestamp (snd p)) (zip refs evs)"
  let ?h' = "h\<lparr>cells := (cells h)(l \<mapsto> EventList (map fst ?ps))\<rparr>"
  have ls: "list_sort l h = Some ?h'"
    by (simp add: list_sort_def assms(1,2))
  from read_all_Some[OF assms(2)] have len: "length evs = length refs"
    and pairs: "\<forall>p \<in> set (zip refs evs). read_event h (fst p) = Some (snd p)" by auto
  have "read_event ?h' (fst p) = Some (snd p)" if "p \<in> set ?ps" for p
  proof -
    from that have p: "p \<in> set (zip refs evs)" by simp
    then have "fst p \<in> set refs" by (metis in_set_zipE prod.collapse)
    with assms(3) have "fst p \<noteq> l" by auto
    then have "read_event ?h' (fst p) = read_event h (fst p)"
      by (intro read_event_cong) simp
    with pairs p show ?thesis by simp
  qed
  then have ra: "read_all ?h' (map fst ?ps) = Some (map snd ?ps)"
    by (rule read_all_pairs)
  have ms: "map snd ?ps = sort_key timestamp evs"
    using len by (simp add: map_snd_sort_key)
  have rl: "read_list ?h' l = Some (map fst ?ps)"
    by (simp add: read_list_def)
  have re: "read_events ?h' l = Some (sort_key timestamp evs)"
    by (simp only: read_events_def rl option.simps ra ms)
  have fr: "\<forall>b. b \<noteq> l \<longrightarrow> cells ?h' b = cells h b" by simp
  from ls re fr show ?thesis by blast
qed

lemma analyze_wallet_clustering_sorted:
  "analyze_wallet_clustering w txs tok =
     analyze_sorted w (if txs = [] then [] else sort_by_timestamp txs) tok"
  by (simp add: analyze_wallet_clustering_def analyze_sorted_def Let_def split: sum.splits)

lemma analyze_on_heap_frame:
  assumes ok: "heap_ok h" and ev: "read_events h a = Some transactions"
  shows "\<exists>h'. analyze_on_heap w h a tok =
                 Some (h', analyze_wallet_clustering w transactions tok) \<and>
              (\<forall>b \<in> dom (cells h). cells h' b = cells h b) \<and>
              read_events h' a = Some transactions"
proof -
  from ev obtain refs where refs: "read_list h a = Some refs" "read_all h refs = Some transactions"
    by (auto simp: read_events_def split: option.splits)
  let ?l = "next_free h"
  let ?h0 = "h\<lparr>cells := (cells h)(next_free h \<mapsto> EventList []), next_free := next_free h + 1\<rparr>"
  have al: "alloc (EventList []) h = (?l, ?h0)" by (simp only: alloc_def)
  have ok0: "heap_ok ?h0"
    unfolding heap_ok_def
  proof
    fix b assume "b \<in> dom (cells ?h0)"
    then consider "b = next_free h" | "b \<in> dom (cells h)" by (auto split: if_splits)
    then show "b < next_free ?h0"
    proof cases
      case 1
      then show ?thesis by simp
    next
      case 2
      with ok have "b < next_free h" unfolding heap_ok_def by blast
      then show ?thesis by simp
    qed
  qed
  have rlow: "\<forall>r \<in> set refs. r < ?l"
    using read_all_Some[OF refs(2)] ok by (auto simp: heap_ok_def)
  have ra0: "read_all ?h0 refs = Some transactions"
  proof -
    have "read_all ?h0 refs = read_all h refs"
      using rlow by (intro read_all_cong) auto
    with refs(2) show ?thesis by simp
  qed
  have rl0: "read_list ?h0 ?l = Some []" by (simp add: read_list_def)
  have lfree: "?l < next_free ?h0" by simp
  have lnotin: "?l \<notin> set refs" using rlow by auto
  have e0: "read_all ?h0 [] = Some []" by simp
  have fr0: "\<forall>d \<in> set []. d \<noteq> ?l \<and> d < next_free ?h0" by simp
  from normalize_loop_frame[OF ok0 lfree rl0 e0 fr0 ra0 lnotin]
  obtain h1 acc' where h1: "normalize_loop refs ?l ?h0 = Some h1"
    "\<forall>b. b \<noteq> ?l \<and> b \<in> dom (cells ?h0) \<longrightarrow> cells h1 b = cells ?h0 b"
    "read_list h1 ?l = Some acc'"
    "read_all h1 acc' = Some ([] @ map normalize_tx transactions)"
    "\<forall>d \<in> set acc'. d \<noteq> ?l"
    by (elim exE conjE)
  have tx: "map normalize_tx transactions = transactions" by (simp add: map_idI)
  have h14: "read_all h1 acc' = Some transactions"
    using h1(4) tx by simp
  have len: "length acc' = length transactions"
    using read_all_Some[OF h14] by simp
  have old1: "cells h1 b = cells h b" if "b \<in> dom (cells h)" for b
  proof -
    from that ok have "b \<noteq> ?l" by (auto simp: heap_ok_def)
    moreover from that have "b \<in> dom (cells ?h0)" by (auto simp: dom_def)
    ultimately have "cells h1 b = cells ?h0 b" using h1(2) by blast
    with \<open>b \<noteq> ?l\<close> show ?thesis by simp
  qed
  have "\<exists>h2. (if length acc' > 0 then list_sort ?l h1 else Some h1) = Some h2 \<and>
          (\<forall>b. b \<noteq> ?l \<longrightarrow> cells h2 b = cells h1 b) \<and>
          read_events h2 ?l = Some (if transactions = [] then [] else sort_by_timestamp transactions)"
  proof (cases "transactions = []")
    case True
    with len h1(3) show ?thesis by (simp add: read_events_def)
  next
    case False
    with len have pos: "length acc' > 0" by simp
    from list_sort_frame[OF h1(3) h14 h1(5)] False pos
    show ?thesis by (simp add: sort_by_timestamp_def)
  qed
  then obtain h2 where h2: "(if length acc' > 0 then list_sort ?l h1 else Some h1) = Some h2"
    "\<forall>b. b \<noteq> ?l \<longrightarrow> cells h2 b = cells h1 b"
    "read_events h2 ?l = Some (if transactions = [] then [] else sort_by_timestamp transactions)"
    by blast
  have run: "analyze_on_heap w h a tok =
               Some (h2, analyze_wallet_clustering w transactions tok)"
    unfolding analyze_on_heap_def analyze_wallet_clustering_sorted
    by (simp only: refs(1) al h1(1,3) h2(1,3) option.simps prod.case)
  have frame: "\<forall>b \<in> dom (cells h). cells h2 b = cells h b"
  proof
    fix b assume b: "b \<in> dom (cells h)"
    with ok have "b \<noteq> ?l" by (auto simp: heap_ok_def)
    with h2(2) old1[OF b] show "cells h2 b = cells h b" by simp
  qed
  have "read_list h2 a = read_list h a"
    using frame read_list_dom[OF refs(1)] by (intro read_list_cong) simp
  moreover have "read_all h2 refs = read_all h refs"
    using frame read_all_Some[OF refs(2)] by (intro read_all_cong) simp
  ultimately have "read_events h2 a = Some transactions"
    using refs by (simp add: read_events_def)
  with run frame show ?thesis by blast
qed

text \<open>
  C10 (no mutation of the input). When the caller's list holds the events
  \<open>transactions\<close>, the call returns what \<open>analyze_wallet_clustering\<close> computes for them,
  and every object that existed before the call is unchanged afterwards: the list still
  holds the same entries in the same order, and each event record is as it was. The
  copies and the sorted list are new objects.
\<close>

theorem input_not_mutated:
  assumes "heap_ok h" and "read_events h a = Some transactions"
  shows "\<exists>h'. analyze_on_heap w h a token_address =
                 Some (h', analyze_wallet_clustering w transactions token_address) \<and>
              (\<forall>b \<in> dom (cells h). cells h' b = cells h b) \<and>
              read_events h' a = Some transactions"
  using assms by (rule analyze_on_heap_frame)

theorem input_not_mutated_witness:
  "heap_ok example_heap \<and>
   read_events example_heap 2 = Some [trade ''x'' 5, trade ''y'' 3] \<and>
   (\<exists>h'. analyze_on_heap quiet_world example_heap 2 None =
            Some (h', analyze_wallet_clustering quiet_world [trade ''x'' 5, trade ''y'' 3] None) \<and>
          cells h' 2 = Some (EventList [0, 1]) \<and>
          cells h' 0 = Some (Event (trade ''x'' 5)) \<and>
          cells h' 1 = Some (Event (trade ''y'' 3)))"
proof -
  have ok: "heap_ok example_heap"
    by (simp add: heap_ok_def example_heap_def)
  have ev: "read_events example_heap 2 = Some [trade ''x'' 5, trade ''y'' 3]"
    by (simp add: read_events_def read_list_def read_event_def example_heap_def)
  from input_not_mutated[OF ok ev, of quiet_world None]
  obtain h' where h':
    "analyze_on_heap quiet_world example_heap 2 None =
       Some (h', analyze_wallet_clustering quiet_world [trade ''x'' 5, trade ''y'' 3] None)"
    "\<forall>b \<in> dom (cells example_heap). cells h' b = cells example_heap b"
    by (elim exE conjE)
  have d: "0 \<in> dom (cells example_heap)" "1 \<in> dom (cells example_heap)"
    "2 \<in> dom (cells example_heap)"
    by (simp_all add: example_heap_def)
  from h'(2) d have "cells h' 0 = cells example_heap 0" "cells h' 1 = cells example_heap 1"
    "cells h' 2 = cells example_heap 2"
    by blast+
  then have c: "cells h' 2 = Some (EventList [0, 1])"
    "cells h' 0 = Some (Event (trade ''x'' 5))"
    "cells h' 1 = Some (Event (trade ''y'' 3))"
    by (simp_all add: example_heap_def)
  from ok ev h'(1) c show ?thesis by blast
qed

end
